theory Spec2Isabelle
  imports Main "HOL-Library.AList"
begin

section \<open>Python values, errors and dictionaries\<close>

text \<open>
  Both scripts are modelled as pure functions. An exception is a value: every function
  that can raise returns \<open>py_error + 'a\<close>, with \<open>Inl\<close> for the exception. A Python
  \<open>dict\<close> is an association list with pairwise distinct keys, in insertion order:
  \<open>map_of d k\<close> is the lookup, \<open>AList.update k v d\<close> is \<open>d[k] = v\<close> (an existing key
  keeps its position, a new key goes to the end), and \<open>dict_update\<close> is \<open>d.update(other)\<close>.
  Dictionaries are values: the catalog that \<open>merge_into_global\<close> mutates in place is
  returned as the new catalog.
\<close>

text \<open>
  A value stored in an SQLite table, as the \<open>sqlite3\<close> module hands it to Python:
  \<open>None\<close>, an \<open>int\<close>, a \<open>str\<close> or \<open>bytes\<close>. Floating-point values do not occur in the
  schema of the program.
\<close>

datatype sqlval = SNull | SInt int | SText string | SBlob string

text \<open>
  \<open>RuntimeError\<close> is raised in one place, \<open>copy_versions\<close>, with a message that
  quotes the game id: the constructor carries that id. \<open>OperationalError\<close> and
  \<open>ProgrammingError\<close> are the two subclasses of \<open>sqlite3.Error\<close> the model uses.
\<close>

datatype py_error =
    KeyError string
  | ValueError string
  | IndexError
  | RuntimeError sqlval
  | OperationalError string
  | ProgrammingError string

text \<open>Sequencing: the second computation runs when the first has not raised.\<close>

definition bindR :: "py_error + 'a \<Rightarrow> ('a \<Rightarrow> py_error + 'b) \<Rightarrow> py_error + 'b" where
  "bindR m f = (case m of Inl e \<Rightarrow> Inl e | Inr x \<Rightarrow> f x)"

text \<open>A \<open>for\<close> loop whose body may raise: the first exception ends the loop.\<close>

fun foldM :: "('s \<Rightarrow> 'a \<Rightarrow> py_error + 's) \<Rightarrow> 'a list \<Rightarrow> 's \<Rightarrow> py_error + 's" where
  "foldM f [] s = Inr s"
| "foldM f (x # xs) s = (case f s x of Inl e \<Rightarrow> Inl e | Inr s' \<Rightarrow> foldM f xs s')"

text \<open>A list comprehension whose element expression may raise.\<close>

fun mapM :: "('a \<Rightarrow> py_error + 'b) \<Rightarrow> 'a list \<Rightarrow> py_error + 'b list" where
  "mapM f [] = Inr []"
| "mapM f (x # xs) =
     (case f x of
        Inl e \<Rightarrow> Inl e
      | Inr y \<Rightarrow> (case mapM f xs of Inl e \<Rightarrow> Inl e | Inr ys \<Rightarrow> Inr (y # ys)))"

text \<open>\<open>d.update(other)\<close>: the items of \<open>other\<close> are assigned in their order.\<close>

definition dict_update :: "('k \<times> 'v) list \<Rightarrow> ('k \<times> 'v) list \<Rightarrow> ('k \<times> 'v) list" where
  "dict_update d other = fold (\<lambda>(k, v) acc. AList.update k v acc) other d"

text \<open>\<open>d.get(k, default)\<close> on an optional field.\<close>

definition get_default :: "'a option \<Rightarrow> 'a \<Rightarrow> 'a" where
  "get_default field dflt = (case field of None \<Rightarrow> dflt | Some v \<Rightarrow> v)"

section \<open>merge\_submission.py\<close>

subsection \<open>The JSON catalog\<close>

text \<open>
  A key of the \<open>games\<close> dictionary is a string when the dictionary comes from
  \<open>json.loads\<close> and an integer when \<open>merge_into_global\<close> has inserted it
  (\<open>int(igdb_id_str)\<close>). Python compares a string and an integer as different keys.
\<close>

datatype pykey = KStr string | KInt int

text \<open>
  A version record: the two fields the scripts read, each absent or present, and every
  other field of the JSON object, which the scripts never look at.
\<close>

record version_rec =
  executable :: "string option"
  hashes :: "(string \<times> string) list option"
  other_fields :: "(string \<times> string) list"

record game_rec =
  versions :: "(string \<times> version_rec) list option"
  game_fields :: "(string \<times> string) list"

record catalog =
  games :: "(pykey \<times> game_rec) list option"
  top_fields :: "(string \<times> string) list"

subsection \<open>\<open>int(igdb_id_str)\<close>\<close>

text \<open>
  Python's \<open>int\<close> on a string, for ASCII input: surrounding whitespace is dropped, one
  sign is allowed, then decimal digits, with single underscores between digits. Anything
  else raises \<open>ValueError\<close>. On an integer, \<open>int\<close> is the identity.
\<close>

definition is_space :: "char \<Rightarrow> bool" where
  "is_space c = (c \<in> set [CHR '' '', CHR 0x09, CHR 0x0A, CHR 0x0B, CHR 0x0C, CHR 0x0D])"

definition digit_of :: "char \<Rightarrow> nat option" where
  "digit_of c =
     (let n = (of_char c :: nat) in if 48 \<le> n \<and> n \<le> 57 then Some (n - 48) else None)"

fun more_digits :: "nat \<Rightarrow> string \<Rightarrow> nat option" where
  "more_digits acc [] = Some acc"
| "more_digits acc [c] =
     (case digit_of c of None \<Rightarrow> None | Some v \<Rightarrow> Some (acc * 10 + v))"
| "more_digits acc (c # d # ds) =
     (if c = CHR ''_''
      then (case digit_of d of None \<Rightarrow> None | Some v \<Rightarrow> more_digits (acc * 10 + v) ds)
      else (case digit_of c of None \<Rightarrow> None | Some v \<Rightarrow> more_digits (acc * 10 + v) (d # ds)))"

definition unsigned_of :: "string \<Rightarrow> nat option" where
  "unsigned_of s =
     (case s of
        [] \<Rightarrow> None
      | c # cs \<Rightarrow> (case digit_of c of None \<Rightarrow> None | Some v \<Rightarrow> more_digits v cs))"

definition strip :: "string \<Rightarrow> string" where
  "strip s = rev (dropWhile is_space (rev (dropWhile is_space s)))"

definition int_of_str :: "string \<Rightarrow> int option" where
  "int_of_str s =
     (case strip s of
        [] \<Rightarrow> None
      | c # cs \<Rightarrow>
          if c = CHR ''-'' then map_option (\<lambda>n. - int n) (unsigned_of cs)
          else if c = CHR ''+'' then map_option int (unsigned_of cs)
          else map_option int (unsigned_of (c # cs)))"

definition py_int :: "pykey \<Rightarrow> py_error + int" where
  "py_int k =
     (case k of
        KInt i \<Rightarrow> Inr i
      | KStr s \<Rightarrow> (case int_of_str s of None \<Rightarrow> Inl (ValueError s) | Some i \<Rightarrow> Inr i))"

subsection \<open>\<open>merge_into_global\<close>\<close>

text \<open>
  The body of the inner loop, lines 99 to 105. The state is \<open>global_db["games"]\<close> and
  \<open>merged_count\<close>. Each iteration reads \<open>global_db["games"][igdb_id]["versions"]\<close>
  again, so a target game without a \<open>versions\<close> field raises \<open>KeyError\<close> here, and so
  does an existing version record without a \<open>hashes\<close> field.
\<close>

fun merge_version ::
  "int \<Rightarrow> (pykey \<times> game_rec) list \<times> nat \<Rightarrow> string \<times> version_rec \<Rightarrow>
   py_error + ((pykey \<times> game_rec) list \<times> nat)" where
  "merge_version igdb_id (gs, merged_count) (ver_name, ver) =
     (case map_of gs (KInt igdb_id) of
        None \<Rightarrow> Inl (KeyError ''igdb_id'')
      | Some g \<Rightarrow>
          (case versions g of
             None \<Rightarrow> Inl (KeyError ''versions'')
           | Some vs \<Rightarrow>
               (case map_of vs ver_name of
                  None \<Rightarrow>
                    Inr (AList.update (KInt igdb_id)
                           (g\<lparr>versions := Some (AList.update ver_name ver vs)\<rparr>) gs,
                         merged_count + 1)
                | Some existing \<Rightarrow>
                    (case hashes existing of
                       None \<Rightarrow> Inl (KeyError ''hashes'')
                     | Some h \<Rightarrow>
                         Inr (AList.update (KInt igdb_id)
                                (g\<lparr>versions := Some (AList.update ver_name
                                    (existing\<lparr>hashes :=
                                       Some (dict_update h (get_default (hashes ver) []))\<rparr>)
                                    vs)\<rparr>) gs,
                              merged_count)))))"

text \<open>
  The body of the outer loop, lines 94 to 98: the key is converted, the game entry is
  created when the integer is not a key of the target, then the submitted versions are
  merged in their order. \<open>game["versions"]\<close> raises \<open>KeyError\<close> when the submitted game
  has no such field.
\<close>

fun merge_game ::
  "(pykey \<times> game_rec) list \<times> nat \<Rightarrow> pykey \<times> game_rec \<Rightarrow>
   py_error + ((pykey \<times> game_rec) list \<times> nat)" where
  "merge_game (gs, merged_count) (igdb_id_str, game) =
     (case py_int igdb_id_str of
        Inl e \<Rightarrow> Inl e
      | Inr igdb_id \<Rightarrow>
          (let gs1 = (if map_of gs (KInt igdb_id) = None
                      then AList.update (KInt igdb_id)
                             \<lparr>versions = Some [], game_fields = []\<rparr> gs
                      else gs)
           in case versions game of
                None \<Rightarrow> Inl (KeyError ''versions'')
              | Some svs \<Rightarrow> foldM (merge_version igdb_id) svs (gs1, merged_count)))"

text \<open>
  The whole function returns the catalog after the merge and \<open>merged_count\<close>, the number
  the script prints.
\<close>

definition merge_into_global :: "catalog \<Rightarrow> catalog \<Rightarrow> py_error + (catalog \<times> nat)" where
  "merge_into_global global_db submission =
     (let gs0 = (case games global_db of None \<Rightarrow> [] | Some gs \<Rightarrow> gs)
      in case games submission of
           None \<Rightarrow> Inl (KeyError ''games'')
         | Some sgs \<Rightarrow>
             (case foldM merge_game sgs (gs0, 0) of
                Inl e \<Rightarrow> Inl e
              | Inr (gs', merged_count) \<Rightarrow>
                  Inr (global_db\<lparr>games := Some gs'\<rparr>, merged_count)))"

text \<open>The version record stored under a game key and a version name, if any.\<close>

definition ver_at :: "(pykey \<times> game_rec) list \<Rightarrow> pykey \<Rightarrow> string \<Rightarrow> version_rec option" where
  "ver_at gs k vn =
     (case map_of gs k of
        None \<Rightarrow> None
      | Some g \<Rightarrow> (case versions g of None \<Rightarrow> None | Some vs \<Rightarrow> map_of vs vn))"


text \<open>
  The external identifier a key of the \<open>games\<close> dictionary stands for: the number that
  \<open>json.dumps\<close> writes for an integer key and the number a string key spells.
\<close>

definition external_id :: "pykey \<Rightarrow> int option" where
  "external_id k = (case py_int k of Inl e \<Rightarrow> None | Inr i \<Rightarrow> Some i)"

definition entries_for :: "catalog \<Rightarrow> int \<Rightarrow> pykey list" where
  "entries_for db i =
     filter (\<lambda>k. external_id k = Some i) (map fst (get_default (games db) []))"

subsection \<open>\<open>verify_submission\<close>\<close>

text \<open>
  What the verification reads from outside the program is a parameter of the model:
  \<open>candidates\<close> is \<open>ARCHIVE_ROOT.rglob("*.zip")\<close> in traversal order, each archive with
  its file name and, for every member, the MD5 hex digest of the member's content;
  \<open>parent_of\<close> is \<open>str(pathlib.Path(exe).parent)\<close>.
\<close>

record archive =
  archive_name :: string
  archive_md5 :: "(string \<times> string) list"

record verify_env =
  candidates :: "archive list"
  parent_of :: "string \<Rightarrow> string"

text \<open>
  \<open>str.lower\<close> on ASCII, the \<open>in\<close> test on strings, and the replacement of every
  backslash by a slash.
\<close>

definition lower_char :: "char \<Rightarrow> char" where
  "lower_char c =
     (let n = (of_char c :: nat) in if 65 \<le> n \<and> n \<le> 90 then char_of (n + 32) else c)"

definition lower :: "string \<Rightarrow> string" where
  "lower s = map lower_char s"

fun str_contains :: "string \<Rightarrow> string \<Rightarrow> bool" where
  "str_contains [] needle = (needle = [])"
| "str_contains (c # cs) needle =
     (take (length needle) (c # cs) = needle \<or> str_contains cs needle)"

definition replace_backslash :: "string \<Rightarrow> string" where
  "replace_backslash s = map (\<lambda>c. if c = CHR 0x5C then CHR ''/'' else c) s"

definition md5_of_file_in_zip :: "archive \<Rightarrow> string \<Rightarrow> py_error + string" where
  "md5_of_file_in_zip zip_path inner_path =
     (case map_of (archive_md5 zip_path) inner_path of
        None \<Rightarrow> Inl (KeyError inner_path)
      | Some digest \<Rightarrow> Inr digest)"

definition find_legal_archive :: "archive list \<Rightarrow> string \<Rightarrow> archive option" where
  "find_legal_archive cands archive_name_hint =
     List.find (\<lambda>cand. str_contains (lower (archive_name cand)) (lower archive_name_hint)) cands"

text \<open>The archive that lines 60 to 65 pick for a version record.\<close>

definition archive_for :: "verify_env \<Rightarrow> version_rec \<Rightarrow> archive option" where
  "archive_for env ver =
     (let exe = get_default (executable ver) [];
          dir_part = replace_backslash (parent_of env exe)
      in find_legal_archive (candidates env) (if dir_part = [] then ''unknown'' else dir_part))"

text \<open>The body of the loop over the hashes, lines 74 to 83.\<close>

fun verify_hash :: "archive \<Rightarrow> string \<times> string \<Rightarrow> bool \<Rightarrow> bool" where
  "verify_hash zip_path (inner_file, expected_hash) ok =
     (case md5_of_file_in_zip zip_path inner_file of
        Inl e \<Rightarrow> False
      | Inr actual \<Rightarrow> if actual \<noteq> expected_hash then False else ok)"

text \<open>The body of the loop over the versions, lines 60 to 83.\<close>

fun verify_version :: "verify_env \<Rightarrow> string \<times> version_rec \<Rightarrow> bool \<Rightarrow> bool" where
  "verify_version env (ver_name, ver) ok =
     (case archive_for env ver of
        None \<Rightarrow> False
      | Some zip_path \<Rightarrow> fold (verify_hash zip_path) (get_default (hashes ver) []) ok)"

fun verify_game :: "verify_env \<Rightarrow> bool \<Rightarrow> pykey \<times> game_rec \<Rightarrow> py_error + bool" where
  "verify_game env ok (igdb_id, game) =
     (case versions game of
        None \<Rightarrow> Inl (KeyError ''versions'')
      | Some vs \<Rightarrow> Inr (fold (verify_version env) vs ok))"

definition verify_submission :: "verify_env \<Rightarrow> catalog \<Rightarrow> py_error + bool" where
  "verify_submission env submission =
     (case games submission of
        None \<Rightarrow> Inl (KeyError ''games'')
      | Some gs \<Rightarrow> foldM (verify_game env) gs True)"

text \<open>
  The events the specification counts. A triple is a version record of the submission
  with one of its hash entries: the inner file and the expected digest. A triple is a
  mismatch when the archive of its version has the inner file with another digest, and a
  missing entry when that archive has no such inner file. A version is unlocated when no
  archive is found for it.
\<close>

definition submitted_versions :: "catalog \<Rightarrow> version_rec list" where
  "submitted_versions submission =
     concat (map (\<lambda>(k, game). map snd (get_default (versions game) []))
                 (get_default (games submission) []))"

definition triples :: "catalog \<Rightarrow> (version_rec \<times> string \<times> string) list" where
  "triples submission =
     concat (map (\<lambda>ver. map (\<lambda>(inner_file, expected_hash). (ver, inner_file, expected_hash))
                               (get_default (hashes ver) []))
                 (submitted_versions submission))"

fun is_mismatch :: "verify_env \<Rightarrow> version_rec \<times> string \<times> string \<Rightarrow> bool" where
  "is_mismatch env (ver, inner_file, expected_hash) =
     (case archive_for env ver of
        None \<Rightarrow> False
      | Some zip_path \<Rightarrow>
          (case map_of (archive_md5 zip_path) inner_file of
             None \<Rightarrow> False
           | Some actual \<Rightarrow> actual \<noteq> expected_hash))"

fun is_missing_entry :: "verify_env \<Rightarrow> version_rec \<times> string \<times> string \<Rightarrow> bool" where
  "is_missing_entry env (ver, inner_file, expected_hash) =
     (case archive_for env ver of
        None \<Rightarrow> False
      | Some zip_path \<Rightarrow> map_of (archive_md5 zip_path) inner_file = None)"

definition mismatches :: "verify_env \<Rightarrow> catalog \<Rightarrow> (version_rec \<times> string \<times> string) list" where
  "mismatches env submission = filter (is_mismatch env) (triples submission)"

definition missing_entries :: "verify_env \<Rightarrow> catalog \<Rightarrow> (version_rec \<times> string \<times> string) list" where
  "missing_entries env submission = filter (is_missing_entry env) (triples submission)"

definition unlocated :: "verify_env \<Rightarrow> catalog \<Rightarrow> version_rec list" where
  "unlocated env submission =
     filter (\<lambda>ver. archive_for env ver = None) (submitted_versions submission)"

section \<open>import\_database.py\<close>

subsection \<open>The SQLite store\<close>

text \<open>
  A table has its column names, its rows (one cell for each column) and the largest row id
  it has ever assigned, which SQLite keeps in \<open>sqlite_sequence\<close> for an
  \<open>AUTOINCREMENT\<close> key. A database is a dictionary from table names to tables. Type
  affinity, \<open>NOT NULL\<close> constraints, column defaults and the limit on the number of
  bound parameters are not modelled.
\<close>

record table =
  columns :: "string list"
  rows :: "sqlval list list"
  seq :: int

type_synonym database = "(string \<times> table) list"

text \<open>\<open>xs.index(x)\<close> and \<open>xs[i]\<close>, with the exceptions Python raises.\<close>

fun index_of :: "'a list \<Rightarrow> 'a \<Rightarrow> nat option" where
  "index_of [] x = None"
| "index_of (y # ys) x = (if y = x then Some 0 else map_option Suc (index_of ys x))"

definition py_index :: "string list \<Rightarrow> string \<Rightarrow> py_error + nat" where
  "py_index xs x = (case index_of xs x of None \<Rightarrow> Inl (ValueError x) | Some i \<Rightarrow> Inr i)"

definition py_nth :: "'a list \<Rightarrow> nat \<Rightarrow> py_error + 'a" where
  "py_nth xs i = (if i < length xs then Inr (xs ! i) else Inl IndexError)"

text \<open>The cell of a stored row that the engine reads for a column.\<close>

definition cell :: "sqlval list \<Rightarrow> nat \<Rightarrow> sqlval" where
  "cell r i = (if i < length r then r ! i else SNull)"

text \<open>\<open>PRAGMA table_info\<close>: no rows for a table that does not exist.\<close>

definition get_table_columns :: "database \<Rightarrow> string \<Rightarrow> string list" where
  "get_table_columns db table_name =
     (case map_of db table_name of None \<Rightarrow> [] | Some t \<Rightarrow> columns t)"

text \<open>\<open>SELECT * FROM t\<close> and \<open>SELECT c FROM t\<close>.\<close>

definition select_all :: "database \<Rightarrow> string \<Rightarrow> py_error + sqlval list list" where
  "select_all db table_name =
     (case map_of db table_name of
        None \<Rightarrow> Inl (OperationalError (''no such table: '' @ table_name))
      | Some t \<Rightarrow> Inr (rows t))"

definition select_column :: "database \<Rightarrow> string \<Rightarrow> string \<Rightarrow> py_error + sqlval list" where
  "select_column db table_name col =
     (case map_of db table_name of
        None \<Rightarrow> Inl (OperationalError (''no such table: '' @ table_name))
      | Some t \<Rightarrow>
          (case index_of (columns t) col of
             None \<Rightarrow> Inl (OperationalError (''no such column: '' @ col))
           | Some i \<Rightarrow> Inr (map (\<lambda>r. cell r i) (rows t))))"

text \<open>
  \<open>SELECT * FROM t WHERE c IN (?, ..., ?)\<close>: a row is selected when its cell is not
  \<open>NULL\<close> and equals one of the bound values.
\<close>

definition sql_in :: "sqlval \<Rightarrow> sqlval list \<Rightarrow> bool" where
  "sql_in v keys = (v \<noteq> SNull \<and> v \<in> set keys)"

definition select_where_in ::
  "database \<Rightarrow> string \<Rightarrow> string \<Rightarrow> sqlval list \<Rightarrow> py_error + sqlval list list" where
  "select_where_in db table_name col keys =
     (case map_of db table_name of
        None \<Rightarrow> Inl (OperationalError (''no such table: '' @ table_name))
      | Some t \<Rightarrow>
          (case index_of (columns t) col of
             None \<Rightarrow> Inl (OperationalError (''no such column: '' @ col))
           | Some i \<Rightarrow> Inr (filter (\<lambda>r. sql_in (cell r i) keys) (rows t))))"

text \<open>
  \<open>INSERT INTO t (cols) VALUES (vals)\<close>, returning the database and \<open>lastrowid\<close>. The
  new row gets the next row id in its \<open>id\<close> column, the bound value in every named
  column and \<open>NULL\<close> elsewhere. The scripts never name the \<open>id\<close> column.
\<close>

definition insert_into ::
  "database \<Rightarrow> string \<Rightarrow> string list \<Rightarrow> sqlval list \<Rightarrow> py_error + (database \<times> int)" where
  "insert_into db table_name cols vals =
     (case map_of db table_name of
        None \<Rightarrow> Inl (OperationalError (''no such table: '' @ table_name))
      | Some t \<Rightarrow>
          if \<not> set cols \<subseteq> set (columns t)
          then Inl (OperationalError (''no such column in '' @ table_name))
          else if length vals \<noteq> length cols
          then Inl (ProgrammingError ''Incorrect number of bindings supplied'')
          else
            (let new_id = seq t + 1;
                 r = map (\<lambda>c. case map_of (zip cols vals) c of
                                 Some v \<Rightarrow> v
                               | None \<Rightarrow> if c = ''id'' then SInt new_id else SNull)
                         (columns t)
             in Inr (AList.update table_name (t\<lparr>rows := rows t @ [r], seq := new_id\<rparr>) db,
                     new_id)))"

subsection \<open>\<open>initialize_database\<close> and \<open>get_database_version\<close>\<close>

definition DB_VERSION :: string where
  "DB_VERSION = ''0.5.0''"

definition create_table_if_not_exists :: "string \<Rightarrow> string list \<Rightarrow> database \<Rightarrow> database" where
  "create_table_if_not_exists table_name cols db =
     (case map_of db table_name of
        None \<Rightarrow> AList.update table_name \<lparr>columns = cols, rows = [], seq = 0\<rparr> db
      | Some t \<Rightarrow> db)"

definition initialize_database :: "database \<Rightarrow> py_error + database" where
  "initialize_database db0 =
     (let db1 = create_table_if_not_exists ''games''
                  [''id'', ''title'', ''release_date'', ''genre'', ''summary'', ''publisher'',
                   ''igdb_id'', ''cover_url''] db0;
          db2 = create_table_if_not_exists ''versions''
                  [''id'', ''game_id'', ''version'', ''executable'', ''archive'', ''config'',
                   ''cycles''] db1;
          db3 = create_table_if_not_exists ''hashes''
                  [''id'', ''version_id'', ''file_name'', ''hash''] db2;
          db4 = create_table_if_not_exists ''local_versions''
                  [''id'', ''version_id'', ''archive''] db3;
          db5 = create_table_if_not_exists ''config_files''
                  [''id'', ''version_id'', ''type'', ''path'', ''content''] db4;
          db6 = create_table_if_not_exists ''db_version'' [''id'', ''version''] db5
      in bindR (insert_into db6 ''db_version'' [''version''] [SText DB_VERSION])
           (\<lambda>(db, lastrowid). Inr db))"

text \<open>\<open>rows[0][0]\<close> of \<open>SELECT version FROM db_version\<close>.\<close>

definition get_database_version :: "database \<Rightarrow> py_error + sqlval" where
  "get_database_version db =
     bindR (select_column db ''db_version'' ''version'')
       (\<lambda>vs. case vs of [] \<Rightarrow> Inl IndexError | v # _ \<Rightarrow> Inr v)"

subsection \<open>\<open>copy_table\<close>\<close>

text \<open>
  The list comprehension of lines 142 to 145 and 173 to 176: the parent id is replaced
  by its image under the remap, every other cell is read from the row.
\<close>

definition row_data_of ::
  "string list \<Rightarrow> string list \<Rightarrow> string \<Rightarrow> int \<Rightarrow> sqlval list \<Rightarrow> py_error + sqlval list" where
  "row_data_of cols insert_columns parent_col new_parent_id row =
     mapM (\<lambda>col. if col = parent_col then Inr (SInt new_parent_id)
                 else bindR (py_index cols col) (py_nth row))
          insert_columns"

text \<open>The body of the loop, lines 138 to 147, on the output database and the counter.\<close>

fun copy_table_row ::
  "string \<Rightarrow> string list \<Rightarrow> string list \<Rightarrow> nat \<Rightarrow> (sqlval \<times> int) list \<Rightarrow>
   database \<times> nat \<Rightarrow> sqlval list \<Rightarrow> py_error + (database \<times> nat)" where
  "copy_table_row table_name cols insert_columns version_id_idx version_id_mapping
     (output_db, inserted_row_count) row =
     bindR (py_nth row version_id_idx) (\<lambda>input_version_id.
       case map_of version_id_mapping input_version_id of
         None \<Rightarrow> Inr (output_db, inserted_row_count)
       | Some new_version_id \<Rightarrow>
           bindR (row_data_of cols insert_columns ''version_id'' new_version_id row)
             (\<lambda>row_data.
                bindR (insert_into output_db table_name insert_columns row_data)
                  (\<lambda>(output_db', lastrowid). Inr (output_db', inserted_row_count + 1))))"

text \<open>
  The function returns the output database and the two numbers it prints: the rows
  processed and the rows inserted.
\<close>

definition copy_table ::
  "string \<Rightarrow> database \<Rightarrow> database \<Rightarrow> (sqlval \<times> int) list \<Rightarrow>
   py_error + (database \<times> nat \<times> nat)" where
  "copy_table table_name input_db output_db version_id_mapping =
     (let cols = get_table_columns input_db table_name;
          input_version_ids = map fst version_id_mapping
      in bindR (select_where_in input_db table_name ''version_id'' input_version_ids)
           (\<lambda>input_rows.
              let insert_columns = filter (\<lambda>col. col \<noteq> ''id'') cols
              in bindR (py_index cols ''version_id'') (\<lambda>version_id_idx.
                   bindR (foldM (copy_table_row table_name cols insert_columns version_id_idx
                                   version_id_mapping)
                                input_rows (output_db, 0))
                     (\<lambda>(output_db', inserted_row_count).
                        Inr (output_db', length input_rows, inserted_row_count)))))"

subsection \<open>\<open>copy_versions\<close>\<close>

text \<open>
  The body of the loop, lines 167 to 180, on the output database, the remap of version ids
  and the counter.
\<close>

fun copy_versions_row ::
  "string list \<Rightarrow> string list \<Rightarrow> nat \<Rightarrow> (sqlval \<times> int) list \<Rightarrow>
   database \<times> (sqlval \<times> int) list \<times> nat \<Rightarrow> sqlval list \<Rightarrow>
   py_error + (database \<times> (sqlval \<times> int) list \<times> nat)" where
  "copy_versions_row version_columns insert_columns game_id_idx game_id_mapping
     (output_db, version_id_mapping, inserted_version_count) row =
     bindR (py_nth row game_id_idx) (\<lambda>input_game_id.
       bindR (bindR (py_index version_columns ''id'') (py_nth row)) (\<lambda>input_version_id.
         case map_of game_id_mapping input_game_id of
           None \<Rightarrow> Inl (RuntimeError input_game_id)
         | Some new_game_id \<Rightarrow>
             bindR (row_data_of version_columns insert_columns ''game_id'' new_game_id row)
               (\<lambda>row_data.
                  bindR (insert_into output_db ''versions'' insert_columns row_data)
                    (\<lambda>(output_db', new_version_id).
                       Inr (output_db',
                            AList.update input_version_id new_version_id version_id_mapping,
                            inserted_version_count + 1)))))"

text \<open>
  The function returns the output database, the remap of version ids and the two numbers
  it prints.
\<close>

definition copy_versions ::
  "database \<Rightarrow> database \<Rightarrow> (sqlval \<times> int) list \<Rightarrow>
   py_error + (database \<times> (sqlval \<times> int) list \<times> nat \<times> nat)" where
  "copy_versions input_db output_db game_id_mapping =
     (let input_game_ids = map fst game_id_mapping
      in bindR (select_where_in input_db ''versions'' ''game_id'' input_game_ids)
           (\<lambda>input_version_rows.
              let version_columns = get_table_columns input_db ''versions'';
                  insert_columns = filter (\<lambda>col. col \<noteq> ''id'') version_columns
              in bindR (py_index version_columns ''game_id'') (\<lambda>game_id_idx.
                   bindR (foldM (copy_versions_row version_columns insert_columns game_id_idx
                                   game_id_mapping)
                                input_version_rows (output_db, [], 0))
                     (\<lambda>(output_db', version_id_mapping, inserted_version_count).
                        Inr (output_db', version_id_mapping, length input_version_rows,
                             inserted_version_count)))))"

subsection \<open>\<open>copy_db_content\<close>\<close>

text \<open>
  The body of the loop, lines 210 to 219, on the output database, the set of external
  identifiers seen so far, the remap of game ids and the counter.
\<close>

fun copy_game_row ::
  "string list \<Rightarrow> string list \<Rightarrow>
   database \<times> sqlval set \<times> (sqlval \<times> int) list \<times> nat \<Rightarrow> sqlval list \<Rightarrow>
   py_error + (database \<times> sqlval set \<times> (sqlval \<times> int) list \<times> nat)" where
  "copy_game_row cols insert_columns
     (output_db, existing_igdb_ids, game_id_mapping, inserted_count) row =
     bindR (bindR (py_index cols ''igdb_id'') (py_nth row)) (\<lambda>igdb_id.
       if igdb_id \<in> existing_igdb_ids
       then Inr (output_db, existing_igdb_ids, game_id_mapping, inserted_count)
       else
         bindR (py_index cols ''id'') (\<lambda>id_idx.
           bindR (py_nth row id_idx) (\<lambda>input_id.
             let insert_row = take id_idx row @ drop (id_idx + 1) row
             in bindR (insert_into output_db ''games'' insert_columns insert_row)
                  (\<lambda>(output_db', output_game_id).
                     Inr (output_db', insert igdb_id existing_igdb_ids,
                          AList.update input_id output_game_id game_id_mapping,
                          inserted_count + 1)))))"

text \<open>
  The function returns the output database, the remap of game ids and the two numbers it
  prints.
\<close>

definition copy_db_content ::
  "database \<Rightarrow> database \<Rightarrow> py_error + (database \<times> (sqlval \<times> int) list \<times> nat \<times> nat)" where
  "copy_db_content input_db output_db =
     (let cols = get_table_columns input_db ''games''
      in if ''igdb_id'' \<notin> set cols then Inl (ValueError ''igdb_id'')
         else
           bindR (select_all input_db ''games'') (\<lambda>input_rows.
             bindR (select_column output_db ''games'' ''igdb_id'') (\<lambda>existing.
               bindR (py_index cols ''id'') (\<lambda>id_idx.
                 let insert_columns = take id_idx cols @ drop (id_idx + 1) cols
                 in bindR (foldM (copy_game_row cols insert_columns) input_rows
                             (output_db, set existing, [], 0))
                      (\<lambda>(output_db', existing_igdb_ids, game_id_mapping, inserted_count).
                         Inr (output_db', game_id_mapping, length input_rows,
                              inserted_count))))))"

subsection \<open>\<open>main\<close>\<close>

text \<open>
  How a run ends: normally, with the version mismatch message and \<open>exit(1)\<close>, with an
  exception caught by the \<open>try\<close> block and \<open>exit(1)\<close>, or with an exception nothing
  catches.
\<close>

datatype outcome =
    Completed
  | VersionMismatch sqlval sqlval
  | Failed py_error
  | Uncaught py_error

text \<open>
  The \<open>try\<close> block, lines 245 to 253. The output database is committed after each of the
  four steps; when a step raises, what it wrote is not committed and the database stays
  as the last commit left it.
\<close>

definition copy_all :: "database \<Rightarrow> database \<Rightarrow> outcome \<times> database" where
  "copy_all input_db output_db =
     (case copy_db_content input_db output_db of
        Inl e \<Rightarrow> (Failed e, output_db)
      | Inr (db1, game_id_mapping, n1, m1) \<Rightarrow>
          (case copy_versions input_db db1 game_id_mapping of
             Inl e \<Rightarrow> (Failed e, db1)
           | Inr (db2, version_id_mapping, n2, m2) \<Rightarrow>
               (case copy_table ''hashes'' input_db db2 version_id_mapping of
                  Inl e \<Rightarrow> (Failed e, db2)
                | Inr (db3, n3, m3) \<Rightarrow>
                    (case copy_table ''config_files'' input_db db3 version_id_mapping of
                       Inl e \<Rightarrow> (Failed e, db3)
                     | Inr (db4, n4, m4) \<Rightarrow> (Completed, db4)))))"

text \<open>
  The input database file exists (\<open>parse_arguments\<close> checks it). The output database is
  \<open>None\<close> when \<open>os.path.isfile(output_db)\<close> is false; \<open>initialize_database\<close> then
  starts from the empty file that \<open>sqlite3.connect\<close> creates. The result is the outcome
  and the output database file after the run.
\<close>

definition main :: "database \<Rightarrow> database option \<Rightarrow> outcome \<times> database option" where
  "main input_db output_file =
     (case get_database_version input_db of
        Inl e \<Rightarrow> (Uncaught e, output_file)
      | Inr input_db_version \<Rightarrow>
          (case output_file of
             Some output_db \<Rightarrow>
               (case get_database_version output_db of
                  Inl e \<Rightarrow> (Uncaught e, Some output_db)
                | Inr output_db_version \<Rightarrow>
                    if input_db_version \<noteq> output_db_version
                    then (VersionMismatch input_db_version output_db_version, Some output_db)
                    else (case copy_all input_db output_db of
                            (res, db) \<Rightarrow> (res, Some db)))
           | None \<Rightarrow>
               (case initialize_database [] of
                  Inl e \<Rightarrow> (Uncaught e, None)
                | Inr output_db \<Rightarrow>
                    (case copy_all input_db output_db of (res, db) \<Rightarrow> (res, Some db)))))"

section \<open>Auxiliary definitions and example data\<close>

text \<open>
  What one iteration of the inner loop leaves under the version name: the submitted record
  when the name was absent, and otherwise the existing record with its hashes updated by
  the submitted hashes. (The iteration raises when the existing record has no hashes; the
  default below is never used in a successful one.)
\<close>

definition after_step :: "version_rec option \<Rightarrow> version_rec \<Rightarrow> version_rec" where
  "after_step old ver =
     (case old of
        None \<Rightarrow> ver
      | Some existing \<Rightarrow>
          existing\<lparr>hashes := Some (dict_update (get_default (hashes existing) [])
                                                (get_default (hashes ver) []))\<rparr>)"


text \<open>The catalog after lines 95 and 96.\<close>

definition ensure_game :: "int \<Rightarrow> (pykey \<times> game_rec) list \<Rightarrow> (pykey \<times> game_rec) list" where
  "ensure_game i gs = (if map_of gs (KInt i) = None
                      then AList.update (KInt i) \<lparr>versions = Some [], game_fields = []\<rparr> gs
                      else gs)"


definition submitted_at :: "(pykey \<times> game_rec) list \<Rightarrow> pykey \<Rightarrow> string \<Rightarrow> bool" where
  "submitted_at sgs k n =
     (\<exists>(ks, game) \<in> set sgs.
        (case py_int ks of Inl e \<Rightarrow> False | Inr i \<Rightarrow> k = KInt i) \<and>
        n \<in> fst ` set (get_default (versions game) []))"


text \<open>
  A target catalog with one game and one version, and a submission for the same game with
  the same version and a new one.
\<close>

definition example_existing :: version_rec where
  "example_existing = \<lparr>executable = Some ''GAME/GAME.EXE'',
     hashes = Some [(''a'', ''1''), (''b'', ''2'')], other_fields = [(''cycles'', ''3000'')]\<rparr>"

definition example_submitted :: version_rec where
  "example_submitted = \<lparr>executable = Some ''GAME/GAME.EXE'',
     hashes = Some [(''b'', ''3''), (''c'', ''4'')], other_fields = []\<rparr>"

definition example_new :: version_rec where
  "example_new = \<lparr>executable = Some ''GAME/NEW.EXE'',
     hashes = Some [(''d'', ''5'')], other_fields = [(''archive'', ''game.zip'')]\<rparr>"

definition example_target :: catalog where
  "example_target = \<lparr>games = Some [(KInt 7, \<lparr>versions = Some [(''1.0'', example_existing)],
       game_fields = [(''title'', ''Game'')]\<rparr>)], top_fields = [(''generated_at'', ''2024'')]\<rparr>"

definition example_game :: game_rec where
  "example_game = \<lparr>versions = Some [(''1.0'', example_submitted), (''1.1'', example_new)],
     game_fields = []\<rparr>"

definition example_merged :: catalog where
  "example_merged = \<lparr>games = Some [(KInt 7, \<lparr>versions = Some [(''1.0'',
       example_existing\<lparr>hashes := Some [(''a'', ''1''), (''b'', ''3''), (''c'', ''4'')]\<rparr>),
       (''1.1'', example_new)], game_fields = [(''title'', ''Game'')]\<rparr>)],
     top_fields = [(''generated_at'', ''2024'')]\<rparr>"

text \<open>A version record without the \<open>hashes\<close> field, in a target and in a submission.\<close>

definition example_hashless :: version_rec where
  "example_hashless = \<lparr>executable = Some ''GAME/GAME.EXE'', hashes = None, other_fields = []\<rparr>"

definition hashless_target :: catalog where
  "hashless_target = \<lparr>games = Some [(KInt 7, \<lparr>versions = Some [(''1.0'', example_hashless)],
       game_fields = []\<rparr>)], top_fields = []\<rparr>"

text \<open>
  A target catalog as \<open>json.loads\<close> returns it, with string keys, and a submission for
  the same game.
\<close>

definition json_target :: catalog where
  "json_target = \<lparr>games = Some [(KStr ''7'', \<lparr>versions = Some [(''1.0'', example_existing)],
       game_fields = []\<rparr>)], top_fields = []\<rparr>"

definition json_submission :: catalog where
  "json_submission = \<lparr>games = Some [(KStr ''7'', \<lparr>versions = Some [(''1.0'', example_submitted)],
       game_fields = []\<rparr>)], top_fields = []\<rparr>"

definition empty_catalog :: catalog where
  "empty_catalog = \<lparr>games = Some [], top_fields = []\<rparr>"

definition hashless_submission :: catalog where
  "hashless_submission = \<lparr>games = Some [(KStr ''7'', \<lparr>versions = Some [(''1.0'', example_hashless)],
       game_fields = []\<rparr>)], top_fields = []\<rparr>"

text \<open>
  A version passes when an archive is found for it and every one of its inner files is in
  the archive with the expected digest.
\<close>

definition version_ok :: "verify_env \<Rightarrow> version_rec \<Rightarrow> bool" where
  "version_ok env ver =
     (case archive_for env ver of
        None \<Rightarrow> False
      | Some zip_path \<Rightarrow>
          list_all (\<lambda>(inner_file, expected_hash).
                      map_of (archive_md5 zip_path) inner_file = Some expected_hash)
                   (get_default (hashes ver) []))"

text \<open>
  An archive root without archives and one with a single archive, a submission whose
  version has no hashes, and one whose version has one hash.
\<close>

definition no_archives :: verify_env where
  "no_archives = \<lparr>candidates = [], parent_of = (\<lambda>exe. ''.'')\<rparr>"

definition one_archive :: verify_env where
  "one_archive = \<lparr>candidates = [\<lparr>archive_name = ''Quake.ZIP'',
       archive_md5 = [(''QUAKE.EXE'', ''bb''), (''ID1/PAK0.PAK'', ''cc'')]\<rparr>],
     parent_of = (\<lambda>exe. ''.'')\<rparr>"

definition no_hash_submission :: catalog where
  "no_hash_submission = \<lparr>games = Some [(KStr ''7'',
       \<lparr>versions = Some [(''1.0'', \<lparr>executable = Some ''GAME.EXE'', hashes = Some [],
                                     other_fields = []\<rparr>)],
        game_fields = []\<rparr>)], top_fields = []\<rparr>"

definition quake_submission :: catalog where
  "quake_submission = \<lparr>games = Some [(KStr ''7'',
       \<lparr>versions = Some [(''1.06'', \<lparr>executable = Some ''QUAKE.EXE'',
                                      hashes = Some [(''QUAKE.EXE'', ''bb'')],
                                      other_fields = []\<rparr>)],
        game_fields = []\<rparr>)], top_fields = []\<rparr>"

text \<open>The cell of a row under a column name, \<open>NULL\<close> when the table has no such column.\<close>

definition cell_of :: "string list \<Rightarrow> sqlval list \<Rightarrow> string \<Rightarrow> sqlval" where
  "cell_of cols row c = (case index_of cols c of None \<Rightarrow> SNull | Some i \<Rightarrow> cell row i)"

text \<open>
  The row that the target table holds for a copied source row, in the words of the
  specification: the target assigns the new id, the parent id is rewritten to its image
  under the remap, every other column that the source table has keeps the source cell,
  and a column that only the target has is \<open>NULL\<close>. \<open>copied_rows\<close> copies a list of
  rows, the ids counting up from the last id the target table has assigned.
\<close>

definition copied_row ::
  "string list \<Rightarrow> string list \<Rightarrow> string \<Rightarrow> (sqlval \<times> int) list \<Rightarrow> int \<Rightarrow> sqlval list \<Rightarrow> sqlval list" where
  "copied_row out_cols in_cols parent_col remap new_id row =
     map (\<lambda>c. if c = ''id'' then SInt new_id
              else case index_of in_cols c of
                     None \<Rightarrow> SNull
                   | Some i \<Rightarrow>
                       if c = parent_col
                       then (case map_of remap (cell row i) of None \<Rightarrow> SNull | Some p \<Rightarrow> SInt p)
                       else cell row i)
         out_cols"

fun copied_rows ::
  "string list \<Rightarrow> string list \<Rightarrow> string \<Rightarrow> (sqlval \<times> int) list \<Rightarrow> int \<Rightarrow> sqlval list list \<Rightarrow>
   sqlval list list" where
  "copied_rows out_cols in_cols parent_col remap last_id [] = []"
| "copied_rows out_cols in_cols parent_col remap last_id (r # rs) =
     copied_row out_cols in_cols parent_col remap (last_id + 1) r #
     copied_rows out_cols in_cols parent_col remap (last_id + 1) rs"

text \<open>
  The rows of a source table whose parent id is a key of the remap (and not \<open>NULL\<close>).
\<close>

definition selected_rows :: "table \<Rightarrow> string \<Rightarrow> (sqlval \<times> int) list \<Rightarrow> sqlval list list" where
  "selected_rows t parent_col remap =
     (case index_of (columns t) parent_col of
        None \<Rightarrow> []
      | Some i \<Rightarrow> filter (\<lambda>r. sql_in (cell r i) (map fst remap)) (rows t))"

text \<open>
  The remap that the copy of a list of rows adds: the source id of each row is mapped to
  the id the target assigned to its copy.
\<close>

fun new_remap :: "string list \<Rightarrow> int \<Rightarrow> sqlval list list \<Rightarrow> (sqlval \<times> int) list \<Rightarrow> (sqlval \<times> int) list" where
  "new_remap in_cols last_id [] acc = acc"
| "new_remap in_cols last_id (r # rs) acc =
     new_remap in_cols (last_id + 1) rs (AList.update (cell_of in_cols r ''id'') (last_id + 1) acc)"

text \<open>The columns of the schema of \<open>initialize_database\<close>.\<close>

definition games_columns :: "string list" where
  "games_columns = [''id'', ''title'', ''release_date'', ''genre'', ''summary'', ''publisher'',
     ''igdb_id'', ''cover_url'']"

definition versions_columns :: "string list" where
  "versions_columns = [''id'', ''game_id'', ''version'', ''executable'', ''archive'', ''config'',
     ''cycles'']"

definition hashes_columns :: "string list" where
  "hashes_columns = [''id'', ''version_id'', ''file_name'', ''hash'']"

definition config_files_columns :: "string list" where
  "config_files_columns = [''id'', ''version_id'', ''type'', ''path'', ''content'']"

text \<open>
  A source store with two games, each with one version and one hash, and \<open>db_version\<close>
  0.6.0; a target store that already has the first game (external identifier 100) under
  other ids, with the \<open>db_version\<close> given.
\<close>

definition source_versions :: table where
  "source_versions = \<lparr>columns = versions_columns,
     rows = [[SInt 1, SInt 1, SText ''1.9'', SText ''DOOM.EXE'', SNull, SNull, SInt 0],
             [SInt 2, SInt 2, SText ''1.06'', SText ''QUAKE.EXE'', SNull, SNull, SInt 0]],
     seq = 2\<rparr>"

definition source_hashes :: table where
  "source_hashes = \<lparr>columns = hashes_columns,
     rows = [[SInt 1, SInt 1, SText ''DOOM.EXE'', SText ''aa''],
             [SInt 2, SInt 2, SText ''QUAKE.EXE'', SText ''bb'']],
     seq = 2\<rparr>"

definition example_source :: database where
  "example_source =
     [(''games'', \<lparr>columns = games_columns,
         rows = [[SInt 1, SText ''Doom'', SNull, SNull, SNull, SNull, SInt 100, SNull],
                 [SInt 2, SText ''Quake'', SNull, SNull, SNull, SNull, SInt 200, SNull]],
         seq = 2\<rparr>),
      (''versions'', source_versions),
      (''hashes'', source_hashes),
      (''config_files'', \<lparr>columns = config_files_columns, rows = [], seq = 0\<rparr>),
      (''db_version'', \<lparr>columns = [''id'', ''version''], rows = [[SInt 1, SText ''0.6.0'']],
         seq = 1\<rparr>)]"

definition dest_versions :: table where
  "dest_versions = \<lparr>columns = versions_columns,
     rows = [[SInt 4, SInt 5, SText ''1.9'', SText ''DOOM.EXE'', SNull, SNull, SInt 0]],
     seq = 4\<rparr>"

definition dest_hashes :: table where
  "dest_hashes = \<lparr>columns = hashes_columns,
     rows = [[SInt 7, SInt 4, SText ''DOOM.EXE'', SText ''aa'']], seq = 7\<rparr>"

definition example_dest :: "string \<Rightarrow> database" where
  "example_dest version =
     [(''games'', \<lparr>columns = games_columns,
         rows = [[SInt 5, SText ''Doom'', SNull, SNull, SNull, SNull, SInt 100, SNull]],
         seq = 5\<rparr>),
      (''versions'', dest_versions),
      (''hashes'', dest_hashes),
      (''config_files'', \<lparr>columns = config_files_columns, rows = [], seq = 0\<rparr>),
      (''db_version'', \<lparr>columns = [''id'', ''version''], rows = [[SInt 1, SText version]],
         seq = 1\<rparr>)]"


text \<open>
  The source games that \<open>copy_db_content\<close> inserts: those whose external identifier is
  not among the identifiers seen so far, the first of each identifier.
\<close>

fun new_games :: "nat \<Rightarrow> sqlval set \<Rightarrow> sqlval list list \<Rightarrow> sqlval list list" where
  "new_games igdb_idx seen [] = []"
| "new_games igdb_idx seen (r # rs) =
     (if cell r igdb_idx \<in> seen then new_games igdb_idx seen rs
      else r # new_games igdb_idx (insert (cell r igdb_idx) seen) rs)"

text \<open>
  The row that the target holds for a copied game: a new id, and the source cell in every
  other column that the source table has.
\<close>

definition copied_game_row :: "string list \<Rightarrow> string list \<Rightarrow> int \<Rightarrow> sqlval list \<Rightarrow> sqlval list" where
  "copied_game_row out_cols in_cols new_id row =
     map (\<lambda>c. if c = ''id'' then SInt new_id else cell_of in_cols row c) out_cols"

fun copied_game_rows ::
  "string list \<Rightarrow> string list \<Rightarrow> int \<Rightarrow> sqlval list list \<Rightarrow> sqlval list list" where
  "copied_game_rows out_cols in_cols last_id [] = []"
| "copied_game_rows out_cols in_cols last_id (r # rs) =
     copied_game_row out_cols in_cols (last_id + 1) r #
     copied_game_rows out_cols in_cols (last_id + 1) rs"

text \<open>
  A catalog in which every game has a \<open>versions\<close> field and every version record a
  \<open>hashes\<close> field.
\<close>

definition well_formed_games :: "(pykey \<times> game_rec) list \<Rightarrow> bool" where
  "well_formed_games gs =
     list_all (\<lambda>(k, g). case versions g of
                           None \<Rightarrow> False
                         | Some vs \<Rightarrow> list_all (\<lambda>(n, e). hashes e \<noteq> None) vs) gs"

section \<open>Properties of \<open>merge_into_global\<close>\<close>

lemma ver_at_update:
  "ver_at (AList.update k g gs) k' n =
     (if k' = k then (case versions g of None \<Rightarrow> None | Some vs \<Rightarrow> map_of vs n) else ver_at gs k' n)"
  by (simp add: ver_at_def update_conv')

lemma merge_version_cases:
  assumes "merge_version i (gs, c) (vn, ver) = Inr (gs', c')"
  shows "\<exists>g vs. map_of gs (KInt i) = Some g \<and> versions g = Some vs \<and>
     gs' = AList.update (KInt i) (g\<lparr>versions := Some (AList.update vn (after_step (map_of vs vn) ver) vs)\<rparr>) gs \<and>
     c' = (if map_of vs vn = None then c + 1 else c) \<and>
     (\<forall>e. map_of vs vn = Some e \<longrightarrow> hashes e \<noteq> None)"
  using assms
  by (auto simp: after_step_def get_default_def split: option.splits)

lemma merge_version_ver_at:
  assumes "merge_version i (gs, c) (vn, ver) = Inr (gs', c')"
  shows "ver_at gs' k n =
           (if k = KInt i \<and> n = vn then Some (after_step (ver_at gs (KInt i) vn) ver)
            else ver_at gs k n)"
  using merge_version_cases[OF assms(1)] assms
  by (auto simp: ver_at_update ver_at_def update_conv')



lemma merge_version_game_fields:
  assumes "merge_version i (gs, c) (vn, ver) = Inr (gs', c')"
  shows "map_option game_fields (map_of gs' k) = map_option game_fields (map_of gs k)"
  using merge_version_cases[OF assms(1)] assms
  by (auto simp: update_conv')

lemma update_keys_present:
  "map_of xs k = Some v \<Longrightarrow> map fst (AList.update k v' xs) = map fst xs"
  by (induction xs) (auto split: if_splits)

lemma merge_version_keys:
  assumes "merge_version i (gs, c) (vn, ver) = Inr (gs', c')"
  shows "map fst gs' = map fst gs"
  using merge_version_cases[OF assms] by (auto simp: update_keys_present)

lemma foldM_Cons_Inr:
  "foldM f (x # xs) s = Inr s' \<Longrightarrow> \<exists>s1. f s x = Inr s1 \<and> foldM f xs s1 = Inr s'"
  by (auto split: sum.splits)

lemma inner_frame:
  assumes "foldM (merge_version i) svs (gs, c) = Inr (gs', c')"
    and "k \<noteq> KInt i \<or> n \<notin> fst ` set svs"
  shows "ver_at gs' k n = ver_at gs k n"
  using assms
proof (induction svs arbitrary: gs c)
  case Nil
  then show ?case by simp
next
  case (Cons x xs)
  obtain vn ver where x: "x = (vn, ver)" by (cases x)
  from foldM_Cons_Inr[OF Cons.prems(1)] obtain gs1 c1
    where step: "merge_version i (gs, c) (vn, ver) = Inr (gs1, c1)"
      and rest: "foldM (merge_version i) xs (gs1, c1) = Inr (gs', c')"
    by (auto simp: x)
  from Cons.prems(2) have "k \<noteq> KInt i \<or> n \<notin> fst ` set xs" and ne: "k \<noteq> KInt i \<or> n \<noteq> vn"
    by (auto simp: x)
  with Cons.IH[OF rest] have "ver_at gs' k n = ver_at gs1 k n" by blast
  also from ne have "\<dots> = ver_at gs k n"
    by (auto simp: merge_version_ver_at[OF step])
  finally show ?case .
qed

lemma inner_hit:
  assumes "foldM (merge_version i) svs (gs, c) = Inr (gs', c')"
    and "distinct (map fst svs)" and "(vn, ver) \<in> set svs"
  shows "ver_at gs' (KInt i) vn = Some (after_step (ver_at gs (KInt i) vn) ver)"
  using assms
proof (induction svs arbitrary: gs c)
  case Nil
  then show ?case by simp
next
  case (Cons x xs)
  obtain vn0 ver0 where x: "x = (vn0, ver0)" by (cases x)
  from foldM_Cons_Inr[OF Cons.prems(1)] obtain gs1 c1
    where step: "merge_version i (gs, c) (vn0, ver0) = Inr (gs1, c1)"
      and rest: "foldM (merge_version i) xs (gs1, c1) = Inr (gs', c')"
    by (auto simp: x)
  from Cons.prems(2) have dist: "distinct (map fst xs)" and fresh: "vn0 \<notin> fst ` set xs"
    by (auto simp: x)
  show ?case
  proof (cases "(vn, ver) \<in> set xs")
    case False
    with Cons.prems(3) have same: "vn = vn0" "ver = ver0" by (auto simp: x)
    with fresh have "ver_at gs' (KInt i) vn = ver_at gs1 (KInt i) vn"
      using inner_frame[OF rest] by auto
    with same show ?thesis by (simp add: merge_version_ver_at[OF step])
  next
    case True
    with fresh have "vn \<noteq> vn0" by (auto intro: rev_image_eqI)
    then have "ver_at gs1 (KInt i) vn = ver_at gs (KInt i) vn"
      by (simp add: merge_version_ver_at[OF step])
    with Cons.IH[OF rest dist True] show ?thesis by simp
  qed
qed



lemma inner_game_fields:
  assumes "foldM (merge_version i) svs (gs, c) = Inr (gs', c')"
  shows "map_option game_fields (map_of gs' k) = map_option game_fields (map_of gs k)"
  using assms
proof (induction svs arbitrary: gs c)
  case Nil
  then show ?case by simp
next
  case (Cons x xs)
  obtain vn0 ver0 where x: "x = (vn0, ver0)" by (cases x)
  from foldM_Cons_Inr[OF Cons.prems(1)] obtain gs1 c1
    where step: "merge_version i (gs, c) (vn0, ver0) = Inr (gs1, c1)"
      and rest: "foldM (merge_version i) xs (gs1, c1) = Inr (gs', c')"
    by (auto simp: x)
  from Cons.IH[OF rest] merge_version_game_fields[OF step]
  show ?case by simp
qed

lemma inner_keys:
  assumes "foldM (merge_version i) svs (gs, c) = Inr (gs', c')"
  shows "map fst gs' = map fst gs"
  using assms
proof (induction svs arbitrary: gs c)
  case Nil
  then show ?case by simp
next
  case (Cons x xs)
  obtain vn0 ver0 where x: "x = (vn0, ver0)" by (cases x)
  from foldM_Cons_Inr[OF Cons.prems(1)] obtain gs1 c1
    where step: "merge_version i (gs, c) (vn0, ver0) = Inr (gs1, c1)"
      and rest: "foldM (merge_version i) xs (gs1, c1) = Inr (gs', c')"
    by (auto simp: x)
  from Cons.IH[OF rest] merge_version_keys[OF step]
  show ?case by simp
qed

lemma merge_game_cases:
  assumes "merge_game (gs, c) (ks, game) = Inr (gs', c')"
  shows "\<exists>i svs. py_int ks = Inr i \<and> versions game = Some svs \<and>
           foldM (merge_version i) svs (ensure_game i gs, c) = Inr (gs', c')"
  using assms by (auto simp: ensure_game_def Let_def split: sum.splits option.splits if_splits)

lemma ver_at_ensure_game: "ver_at (ensure_game i gs) k n = ver_at gs k n"
  by (auto simp: ensure_game_def ver_at_update) (simp add: ver_at_def)


lemma merge_game_frame:
  assumes "merge_game (gs, c) (ks, game) = Inr (gs', c')" and "py_int ks = Inr i"
    and "k \<noteq> KInt i \<or> n \<notin> fst ` set (get_default (versions game) [])"
  shows "ver_at gs' k n = ver_at gs k n"
proof -
  from merge_game_cases[OF assms(1)] assms(2) obtain svs
    where svs: "versions game = Some svs"
      and run: "foldM (merge_version i) svs (ensure_game i gs, c) = Inr (gs', c')"
    by auto
  from assms(3) svs have "k \<noteq> KInt i \<or> n \<notin> fst ` set svs" by (simp add: get_default_def)
  from inner_frame[OF run this] show ?thesis by (simp add: ver_at_ensure_game)
qed

lemma merge_game_hit:
  assumes "merge_game (gs, c) (ks, game) = Inr (gs', c')" and "py_int ks = Inr i"
    and "versions game = Some svs" and "distinct (map fst svs)" and "(vn, ver) \<in> set svs"
  shows "ver_at gs' (KInt i) vn = Some (after_step (ver_at gs (KInt i) vn) ver)"
proof -
  from merge_game_cases[OF assms(1)] assms(2,3)
  have run: "foldM (merge_version i) svs (ensure_game i gs, c) = Inr (gs', c')"
    by auto
  from inner_hit[OF run assms(4,5)] show ?thesis by (simp add: ver_at_ensure_game)
qed




lemma merge_game_game_fields:
  assumes "merge_game (gs, c) (ks, game) = Inr (gs', c')" and "map_of gs k = Some g"
  shows "map_option game_fields (map_of gs' k) = Some (game_fields g)"
proof -
  from merge_game_cases[OF assms(1)] obtain i svs
    where run: "foldM (merge_version i) svs (ensure_game i gs, c) = Inr (gs', c')"
    by auto
  from assms(2) have "map_of (ensure_game i gs) k = Some g"
    by (auto simp: ensure_game_def update_conv')
  with inner_game_fields[OF run, of k] show ?thesis by simp
qed

lemma foldM_merge_game_Cons:
  assumes "foldM merge_game ((ks, game) # xs) (gs, c) = Inr (gs', c')"
  shows "\<exists>gs1 c1 i. py_int ks = Inr i \<and> merge_game (gs, c) (ks, game) = Inr (gs1, c1) \<and>
           foldM merge_game xs (gs1, c1) = Inr (gs', c')"
proof -
  from foldM_Cons_Inr[OF assms] obtain gs1 c1
    where step: "merge_game (gs, c) (ks, game) = Inr (gs1, c1)"
      and rest: "foldM merge_game xs (gs1, c1) = Inr (gs', c')"
    by auto
  from merge_game_cases[OF step] obtain i where "py_int ks = Inr i" by auto
  with step rest show ?thesis by blast
qed

lemma outer_frame:
  assumes "foldM merge_game sgs (gs, c) = Inr (gs', c')" and "\<not> submitted_at sgs k n"
  shows "ver_at gs' k n = ver_at gs k n"
  using assms
proof (induction sgs arbitrary: gs c)
  case Nil
  then show ?case by simp
next
  case (Cons x xs)
  obtain ks game where x: "x = (ks, game)" by (cases x)
  from foldM_merge_game_Cons[OF Cons.prems(1)[unfolded x]] obtain gs1 c1 i
    where i: "py_int ks = Inr i"
      and step: "merge_game (gs, c) (ks, game) = Inr (gs1, c1)"
      and rest: "foldM merge_game xs (gs1, c1) = Inr (gs', c')"
    by blast
  from Cons.prems(2) have later: "\<not> submitted_at xs k n"
    and here: "k \<noteq> KInt i \<or> n \<notin> fst ` set (get_default (versions game) [])"
    using i by (auto simp: submitted_at_def x)
  from Cons.IH[OF rest later] merge_game_frame[OF step i here] show ?case by simp
qed


lemma outer_game_fields:
  assumes "foldM merge_game sgs (gs, c) = Inr (gs', c')" and "map_of gs k = Some g"
  shows "map_option game_fields (map_of gs' k) = Some (game_fields g)"
  using assms
proof (induction sgs arbitrary: gs c g)
  case Nil
  then show ?case by simp
next
  case (Cons x xs)
  obtain ks game where x: "x = (ks, game)" by (cases x)
  from foldM_merge_game_Cons[OF Cons.prems(1)[unfolded x]] obtain gs1 c1
    where step: "merge_game (gs, c) (ks, game) = Inr (gs1, c1)"
      and rest: "foldM merge_game xs (gs1, c1) = Inr (gs', c')"
    by blast
  from merge_game_game_fields[OF step Cons.prems(2)] obtain g1
    where g1: "map_of gs1 k = Some g1" "game_fields g1 = game_fields g"
    by auto
  from Cons.IH[OF rest g1(1)] g1(2) show ?case by simp
qed

lemma outer_hit:
  assumes "foldM merge_game sgs (gs, c) = Inr (gs', c')"
    and "distinct (map (\<lambda>(ks, game). py_int ks) sgs)"
    and "\<forall>(ks, game) \<in> set sgs. distinct (map fst (get_default (versions game) []))"
    and "(ks, game) \<in> set sgs" and "py_int ks = Inr i"
    and "versions game = Some svs" and "(vn, ver) \<in> set svs"
  shows "ver_at gs' (KInt i) vn = Some (after_step (ver_at gs (KInt i) vn) ver)"
  using assms(1-4)
proof (induction sgs arbitrary: gs c)
  case Nil
  then show ?case by simp
next
  case (Cons x xs)
  obtain ks0 game0 where x: "x = (ks0, game0)" by (cases x)
  from foldM_merge_game_Cons[OF Cons.prems(1)[unfolded x]] obtain gs1 c1 i0
    where i0: "py_int ks0 = Inr i0"
      and step: "merge_game (gs, c) (ks0, game0) = Inr (gs1, c1)"
      and rest: "foldM merge_game xs (gs1, c1) = Inr (gs', c')"
    by blast
  from Cons.prems(2) have dist: "distinct (map (\<lambda>(ks, game). py_int ks) xs)"
    and fresh: "Inr i0 \<notin> (\<lambda>(ks, game). py_int ks) ` set xs"
    by (auto simp: x i0)
  from Cons.prems(3) have names: "\<forall>(ks, game) \<in> set xs. distinct (map fst (get_default (versions game) []))"
    and names0: "distinct (map fst (get_default (versions game0) []))"
    by (auto simp: x)
  show ?case
  proof (cases "(ks, game) \<in> set xs")
    case True
    with fresh assms(5) have "i \<noteq> i0" by (auto intro: rev_image_eqI)
    then have "ver_at gs1 (KInt i) vn = ver_at gs (KInt i) vn"
      using merge_game_frame[OF step i0] by simp
    with Cons.IH[OF rest dist names True] show ?thesis by simp
  next
    case False
    with Cons.prems(4) have same: "ks = ks0" "game = game0" by (auto simp: x)
    with assms(5) i0 have ii: "i0 = i" by simp
    from names0 same assms(6) have "distinct (map fst svs)" by (simp add: get_default_def)
    from merge_game_hit[OF step[folded same] assms(5,6) this assms(7)]
    have now: "ver_at gs1 (KInt i) vn = Some (after_step (ver_at gs (KInt i) vn) ver)" .
    have "\<not> submitted_at xs (KInt i) vn"
      using fresh ii by (auto simp: submitted_at_def split: sum.splits intro: rev_image_eqI)
    from outer_frame[OF rest this] now show ?thesis by simp
  qed
qed


lemma merge_into_global_Inr:
  assumes "merge_into_global global_db submission = Inr (global_db', n)"
  shows "\<exists>sgs gs'. games submission = Some sgs \<and>
           foldM merge_game sgs (get_default (games global_db) [], 0) = Inr (gs', n) \<and>
           global_db' = global_db\<lparr>games := Some gs'\<rparr>"
  using assms
  by (auto simp: merge_into_global_def get_default_def Let_def split: option.splits sum.splits)

lemma map_of_dict_update:
  "distinct (map fst other) \<Longrightarrow> map_of (dict_update d other) = map_of d ++ map_of other"
proof (induction other arbitrary: d)
  case Nil
  then show ?case by (simp add: dict_update_def)
next
  case (Cons p ps)
  obtain k v where p: "p = (k, v)" by (cases p)
  from Cons.prems have dist: "distinct (map fst ps)" and fresh: "map_of ps k = None"
    by (auto simp: p map_of_eq_None_iff)
  have "map_of (dict_update d (p # ps)) = map_of (dict_update (AList.update k v d) ps)"
    by (simp add: dict_update_def p)
  also have "\<dots> = map_of (AList.update k v d) ++ map_of ps"
    by (rule Cons.IH[OF dist])
  also have "\<dots> = (map_of d)(k \<mapsto> v) ++ map_of ps"
    by (simp only: update_conv')
  also have "\<dots> = map_of d ++ map_of (p # ps)"
    using fresh by (auto simp: p fun_eq_iff map_add_def split: option.splits)
  finally show ?case .
qed


lemmas example_defs = example_target_def example_existing_def
  example_submitted_def example_new_def

lemmas py_int_defs = py_int_def int_of_str_def strip_def is_space_def unsigned_of_def digit_of_def

lemma example_merge:
  "merge_into_global example_target \<lparr>games = Some [(KStr ''7'', example_game)], top_fields = []\<rparr>
     = Inr (example_merged, 1)"
  by (simp add: merge_into_global_def example_defs example_game_def example_merged_def
        py_int_defs dict_update_def get_default_def)













text \<open>
  Claim C1, the JSON path at a catalog loaded from JSON. The target has the game under
  the string key \<open>"7"\<close>. The submitted key \<open>"7"\<close> is converted to the integer 7, which
  is not a key of the target, so the merge adds a second entry for the external
  identifier 7 beside the first.
\<close>

theorem merge_into_global_string_key_duplicate:
  "merge_into_global json_target json_submission =
     Inr (\<lparr>games = Some [(KStr ''7'', \<lparr>versions = Some [(''1.0'', example_existing)], game_fields = []\<rparr>),
                        (KInt 7, \<lparr>versions = Some [(''1.0'', example_submitted)], game_fields = []\<rparr>)],
           top_fields = []\<rparr>, 1) \<and>
   entries_for json_target 7 = [KStr ''7''] \<and>
   entries_for (fst (projr (merge_into_global json_target json_submission))) 7 = [KStr ''7'', KInt 7]"
  by (simp add: merge_into_global_def json_target_def json_submission_def py_int_defs
        entries_for_def external_id_def get_default_def)

text \<open>
  Claim C2 at a submission whose version record has no \<open>hashes\<close> field. The first
  merge stores the record as submitted; the second merge of the same submission into the
  result finds the record and raises \<open>KeyError\<close> instead of returning the same catalog.
\<close>

theorem merge_into_global_not_idempotent_without_hashes:
  "merge_into_global empty_catalog hashless_submission = Inr (hashless_target, 1) \<and>
   merge_into_global hashless_target hashless_submission = Inl (KeyError ''hashes'')"
  by (simp add: merge_into_global_def empty_catalog_def hashless_submission_def hashless_target_def
        example_hashless_def py_int_defs)

subsection \<open>When the merge returns\<close>

lemma list_all_update:
  "list_all P xs \<Longrightarrow> P (k, v) \<Longrightarrow> list_all P (AList.update k v xs)"
  by (induction xs) auto

lemma list_all_map_of:
  "list_all P xs \<Longrightarrow> map_of xs k = Some v \<Longrightarrow> P (k, v)"
  by (auto simp: list_all_iff dest: map_of_SomeD)

lemma merge_version_succeeds:
  assumes "well_formed_games gs" and "map_of gs (KInt i) \<noteq> None" and "hashes ver \<noteq> None"
  shows "\<exists>gs' c'. merge_version i (gs, c) (vn, ver) = Inr (gs', c') \<and> well_formed_games gs' \<and>
           map_of gs' (KInt i) \<noteq> None"
proof -
  from assms(2) obtain g where g: "map_of gs (KInt i) = Some g" by auto
  from list_all_map_of[OF assms(1)[unfolded well_formed_games_def] g]
  obtain vs where vs: "versions g = Some vs"
    and all: "list_all (\<lambda>(n, e). hashes e \<noteq> None) vs"
    by (auto split: option.splits)
  show ?thesis
  proof (cases "map_of vs vn")
    case None
    let ?g' = "g\<lparr>versions := Some (AList.update vn ver vs)\<rparr>"
    from all assms(3) have "list_all (\<lambda>(n, e). hashes e \<noteq> None) (AList.update vn ver vs)"
      by (intro list_all_update) auto
    then have "well_formed_games (AList.update (KInt i) ?g' gs)"
      using assms(1) unfolding well_formed_games_def by (intro list_all_update) auto
    with g vs None show ?thesis by (simp add: update_conv')
  next
    case (Some e)
    from list_all_map_of[OF all Some] obtain h where h: "hashes e = Some h" by auto
    let ?e' = "e\<lparr>hashes := Some (dict_update h (get_default (hashes ver) []))\<rparr>"
    let ?g' = "g\<lparr>versions := Some (AList.update vn ?e' vs)\<rparr>"
    from all have "list_all (\<lambda>(n, e). hashes e \<noteq> None) (AList.update vn ?e' vs)"
      by (intro list_all_update) auto
    then have "well_formed_games (AList.update (KInt i) ?g' gs)"
      using assms(1) unfolding well_formed_games_def by (intro list_all_update) auto
    with g vs Some h show ?thesis by (simp add: update_conv')
  qed
qed

lemma inner_succeeds:
  assumes "well_formed_games gs" and "map_of gs (KInt i) \<noteq> None"
    and "\<forall>(vn, ver) \<in> set svs. hashes ver \<noteq> None"
  shows "\<exists>gs' c'. foldM (merge_version i) svs (gs, c) = Inr (gs', c') \<and> well_formed_games gs'"
  using assms
proof (induction svs arbitrary: gs c)
  case Nil
  then show ?case by simp
next
  case (Cons x xs)
  obtain vn ver where x: "x = (vn, ver)" by (cases x)
  from Cons.prems(3) have here: "hashes ver \<noteq> None"
    and later: "\<forall>(vn, ver) \<in> set xs. hashes ver \<noteq> None" by (auto simp: x)
  from merge_version_succeeds[OF Cons.prems(1,2) here, of c vn] obtain gs1 c1
    where step: "merge_version i (gs, c) (vn, ver) = Inr (gs1, c1)"
      and wf: "well_formed_games gs1" and present: "map_of gs1 (KInt i) \<noteq> None"
    by blast
  from Cons.IH[OF wf present later, of c1] show ?case
    unfolding x foldM.simps step by simp
qed

lemma merge_game_succeeds:
  assumes "well_formed_games gs" and "py_int ks = Inr i" and "versions game = Some svs"
    and "\<forall>(vn, ver) \<in> set svs. hashes ver \<noteq> None"
  shows "\<exists>gs' c'. merge_game (gs, c) (ks, game) = Inr (gs', c') \<and> well_formed_games gs'"
proof -
  have wf: "well_formed_games (ensure_game i gs)"
    using assms(1) unfolding ensure_game_def well_formed_games_def
    by (auto intro: list_all_update)
  have present: "map_of (ensure_game i gs) (KInt i) \<noteq> None"
    by (simp add: ensure_game_def update_conv')
  from inner_succeeds[OF wf present assms(4), of c] assms(2,3) show ?thesis
    by (simp add: ensure_game_def Let_def)
qed

lemma outer_succeeds:
  assumes "well_formed_games gs"
    and "\<forall>(ks, game) \<in> set sgs. external_id ks \<noteq> None \<and> versions game \<noteq> None \<and>
           (\<forall>(vn, ver) \<in> set (get_default (versions game) []). hashes ver \<noteq> None)"
  shows "\<exists>gs' c'. foldM merge_game sgs (gs, c) = Inr (gs', c') \<and> well_formed_games gs'"
  using assms
proof (induction sgs arbitrary: gs c)
  case Nil
  then show ?case by simp
next
  case (Cons x xs)
  obtain ks game where x: "x = (ks, game)" by (cases x)
  from Cons.prems(2) have here: "external_id ks \<noteq> None" "versions game \<noteq> None"
    "\<forall>(vn, ver) \<in> set (get_default (versions game) []). hashes ver \<noteq> None"
    and later: "\<forall>(ks, game) \<in> set xs. external_id ks \<noteq> None \<and> versions game \<noteq> None \<and>
           (\<forall>(vn, ver) \<in> set (get_default (versions game) []). hashes ver \<noteq> None)"
    by (simp_all add: x)
  from here(1) obtain i where i: "py_int ks = Inr i"
    by (auto simp: external_id_def split: sum.splits)
  from here(2) obtain svs where svs: "versions game = Some svs" by auto
  from here(3) svs have hs: "\<forall>(vn, ver) \<in> set svs. hashes ver \<noteq> None"
    by (simp add: get_default_def)
  from merge_game_succeeds[OF Cons.prems(1) i svs hs, of c] obtain gs1 c1
    where step: "merge_game (gs, c) (ks, game) = Inr (gs1, c1)" and wf: "well_formed_games gs1"
    by blast
  from Cons.IH[OF wf later, of c1] show ?case
    unfolding x foldM.simps step by simp
qed

text \<open>
  \<open>merge_into_global\<close> returns when the target catalog is well formed, every submitted
  key denotes an integer, every submitted game has \<open>versions\<close> and every submitted
  version has \<open>hashes\<close>.
\<close>

lemma merge_into_global_succeeds:
  assumes "well_formed_games (get_default (games global_db) [])"
    and "games submission = Some sgs"
    and "\<forall>(ks, game) \<in> set sgs. external_id ks \<noteq> None \<and> versions game \<noteq> None \<and>
           (\<forall>(vn, ver) \<in> set (get_default (versions game) []). hashes ver \<noteq> None)"
  shows "\<exists>global_db' merged_count.
           merge_into_global global_db submission = Inr (global_db', merged_count)"
proof -
  from outer_succeeds[OF assms(1,3), of 0] obtain gs' c'
    where "foldM merge_game sgs (get_default (games global_db) [], 0) = Inr (gs', c')"
    by blast
  with assms(2) show ?thesis
    by (simp add: merge_into_global_def get_default_def Let_def split: option.splits)
qed

text \<open>The example meets these conditions.\<close>

lemma merge_into_global_succeeds_example:
  "\<exists>global_db' merged_count.
     merge_into_global example_target
       \<lparr>games = Some [(KStr ''7'', example_game)], top_fields = []\<rparr> = Inr (global_db', merged_count)"
proof (rule merge_into_global_succeeds)
  show "well_formed_games (get_default (games example_target) [])"
    by (simp add: well_formed_games_def example_target_def example_existing_def get_default_def)
  show "games \<lparr>games = Some [(KStr ''7'', example_game)], top_fields = []\<rparr> =
          Some [(KStr ''7'', example_game)]" by simp
  show "\<forall>(ks, game) \<in> set [(KStr ''7'', example_game)].
          external_id ks \<noteq> None \<and> versions game \<noteq> None \<and>
          (\<forall>(vn, ver) \<in> set (get_default (versions game) []). hashes ver \<noteq> None)"
    by (simp add: external_id_def py_int_defs get_default_def example_game_def
          example_submitted_def example_new_def)
qed

subsection \<open>Idempotence\<close>

lemma dict_update_same:
  "\<forall>(k, v) \<in> set other. map_of d k = Some v \<Longrightarrow> dict_update d other = d"
proof (induction other)
  case Nil
  then show ?case by (simp add: dict_update_def)
next
  case (Cons p ps)
  obtain k v where p: "p = (k, v)" by (cases p)
  from Cons.prems have "map_of d k = Some v" by (simp add: p)
  then have "AList.update k v d = d" by (rule update_triv)
  then have "dict_update d (p # ps) = dict_update d ps" by (simp add: dict_update_def p)
  with Cons show ?case by simp
qed

lemma dict_update_absorbs:
  assumes "distinct (map fst other)"
  shows "dict_update (dict_update d other) other = dict_update d other"
proof (rule dict_update_same, clarify)
  fix k v assume "(k, v) \<in> set other"
  with assms have "map_of other k = Some v" by simp
  then show "map_of (dict_update d other) k = Some v"
    by (simp add: map_of_dict_update[OF assms] map_add_def)
qed

lemma dict_update_self:
  assumes "distinct (map fst other)"
  shows "dict_update other other = other"
  by (rule dict_update_same) (use assms in auto)

lemma merge_version_fixed:
  assumes "ver_at gs (KInt i) vn = Some e" and "hashes e = Some h"
    and "dict_update h (get_default (hashes ver) []) = h"
  shows "merge_version i (gs, c) (vn, ver) = Inr (gs, c)"
proof -
  from assms(1) obtain g vs where g: "map_of gs (KInt i) = Some g"
    and vs: "versions g = Some vs" and e: "map_of vs vn = Some e"
    by (auto simp: ver_at_def split: option.splits)
  from assms(2,3) have e': "e\<lparr>hashes := Some (dict_update h (get_default (hashes ver) []))\<rparr> = e"
    by (cases e) simp
  from e have vs': "AList.update vn e vs = vs" by (rule update_triv)
  from vs have g': "g\<lparr>versions := Some vs\<rparr> = g" by (cases g) simp
  from g have gs': "AList.update (KInt i) g gs = gs" by (rule update_triv)
  have "merge_version i (gs, c) (vn, ver) =
          Inr (AList.update (KInt i) (g\<lparr>versions := Some (AList.update vn
                 (e\<lparr>hashes := Some (dict_update h (get_default (hashes ver) []))\<rparr>) vs)\<rparr>) gs, c)"
    using g vs e assms(2) by simp
  then show ?thesis unfolding e' vs' g' gs' .
qed

lemma inner_fixed:
  assumes "\<forall>(vn, ver) \<in> set svs. \<exists>e h. ver_at gs (KInt i) vn = Some e \<and> hashes e = Some h \<and>
             dict_update h (get_default (hashes ver) []) = h"
  shows "foldM (merge_version i) svs (gs, c) = Inr (gs, c)"
  using assms
proof (induction svs)
  case Nil
  then show ?case by simp
next
  case (Cons x xs)
  obtain vn ver where x: "x = (vn, ver)" by (cases x)
  from Cons.prems obtain e h where "ver_at gs (KInt i) vn = Some e" "hashes e = Some h"
    "dict_update h (get_default (hashes ver) []) = h" by (auto simp: x)
  from merge_version_fixed[OF this] Cons show ?case
    unfolding x foldM.simps by simp
qed

text \<open>
  The merge leaves a catalog as it is when the catalog has every submitted game under its
  integer key and every submitted version under its name, with hashes that the submitted
  hashes do not change.
\<close>

lemma outer_fixed:
  assumes "\<forall>(ks, game) \<in> set sgs.
             \<exists>i svs. py_int ks = Inr i \<and> map_of gs (KInt i) \<noteq> None \<and>
               versions game = Some svs \<and>
               (\<forall>(vn, ver) \<in> set svs.
                  \<exists>e h. ver_at gs (KInt i) vn = Some e \<and> hashes e = Some h \<and>
                        dict_update h (get_default (hashes ver) []) = h)"
  shows "foldM merge_game sgs (gs, c) = Inr (gs, c)"
  using assms
proof (induction sgs)
  case Nil
  then show ?case by simp
next
  case (Cons x xs)
  obtain ks game where x: "x = (ks, game)" by (cases x)
  from Cons.prems obtain i svs where i: "py_int ks = Inr i"
    and present: "map_of gs (KInt i) \<noteq> None" and svs: "versions game = Some svs"
    and all: "\<forall>(vn, ver) \<in> set svs. \<exists>e h. ver_at gs (KInt i) vn = Some e \<and> hashes e = Some h \<and>
             dict_update h (get_default (hashes ver) []) = h"
    by (auto simp: x)
  from inner_fixed[OF all] i present svs
  have "merge_game (gs, c) (ks, game) = Inr (gs, c)" by auto
  moreover from Cons have "foldM merge_game xs (gs, c) = Inr (gs, c)" by simp
  ultimately show ?case unfolding x foldM.simps by simp
qed

lemma merge_game_present:
  assumes "merge_game (gs, c) (ks, game) = Inr (gs', c')" and "py_int ks = Inr i"
  shows "map_of gs' (KInt i) \<noteq> None"
proof -
  from merge_game_cases[OF assms(1)] assms(2) obtain svs
    where run: "foldM (merge_version i) svs (ensure_game i gs, c) = Inr (gs', c')"
    by auto
  have "KInt i \<in> set (map fst (ensure_game i gs))"
    by (simp add: ensure_game_def dom_update map_of_eq_None_iff)
  with inner_keys[OF run] have "KInt i \<in> set (map fst gs')" by simp
  then show ?thesis by (simp add: map_of_eq_None_iff)
qed

lemma outer_present:
  assumes "foldM merge_game sgs (gs, c) = Inr (gs', c')"
    and "(ks, game) \<in> set sgs" and "py_int ks = Inr i"
  shows "map_of gs' (KInt i) \<noteq> None"
  using assms(1,2)
proof (induction sgs arbitrary: gs c)
  case Nil
  then show ?case by simp
next
  case (Cons x xs)
  obtain ks0 game0 where x: "x = (ks0, game0)" by (cases x)
  from foldM_merge_game_Cons[OF Cons.prems(1)[unfolded x]] obtain gs1 c1
    where step: "merge_game (gs, c) (ks0, game0) = Inr (gs1, c1)"
      and rest: "foldM merge_game xs (gs1, c1) = Inr (gs', c')"
    by blast
  show ?case
  proof (cases "(ks, game) \<in> set xs")
    case True
    from Cons.IH[OF rest True] show ?thesis .
  next
    case False
    with Cons.prems(2) have "ks0 = ks" "game0 = game" by (auto simp: x)
    with merge_game_present[OF step] assms(3) obtain g where "map_of gs1 (KInt i) = Some g"
      by auto
    from outer_game_fields[OF rest this] show ?thesis by auto
  qed
qed

lemma after_step_absorbs:
  assumes "hashes ver = Some sh" and "distinct (map fst sh)"
  shows "\<exists>h. hashes (after_step old ver) = Some h \<and> dict_update h (get_default (hashes ver) []) = h"
proof (cases old)
  case None
  with assms(1) dict_update_self[OF assms(2)] show ?thesis
    by (simp add: after_step_def get_default_def)
next
  case (Some e)
  with assms(1) dict_update_absorbs[OF assms(2)] show ?thesis
    by (simp add: after_step_def get_default_def)
qed

lemma outer_parses:
  assumes "foldM merge_game sgs (gs, c) = Inr (gs', c')" and "(ks, game) \<in> set sgs"
  shows "\<exists>i svs. py_int ks = Inr i \<and> versions game = Some svs"
  using assms
proof (induction sgs arbitrary: gs c)
  case Nil
  then show ?case by simp
next
  case (Cons x xs)
  obtain ks0 game0 where x: "x = (ks0, game0)" by (cases x)
  from foldM_merge_game_Cons[OF Cons.prems(1)[unfolded x]] obtain gs1 c1
    where step: "merge_game (gs, c) (ks0, game0) = Inr (gs1, c1)"
      and rest: "foldM merge_game xs (gs1, c1) = Inr (gs', c')"
    by blast
  show ?case
  proof (cases "(ks, game) \<in> set xs")
    case True
    from Cons.IH[OF rest True] show ?thesis .
  next
    case False
    with Cons.prems(2) have "ks0 = ks" "game0 = game" by (auto simp: x)
    with merge_game_cases[OF step] show ?thesis by auto
  qed
qed

text \<open>
  Idempotence where every submitted version record has a \<open>hashes\<close> field: merging the
  same submission into the result of a successful merge returns the same catalog and
  counts no new version.
\<close>

lemma merge_into_global_idempotent:
  assumes "merge_into_global global_db submission = Inr (global_db', merged_count)"
    and "games submission = Some sgs"
    and "distinct (map (\<lambda>(ks, game). py_int ks) sgs)"
    and "\<forall>(ks, game) \<in> set sgs. distinct (map fst (get_default (versions game) []))"
    and "\<forall>(ks, game) \<in> set sgs. \<forall>(vn, ver) \<in> set (get_default (versions game) []).
           hashes ver \<noteq> None \<and> distinct (map fst (get_default (hashes ver) []))"
  shows "merge_into_global global_db' submission = Inr (global_db', 0)"
proof -
  let ?gs = "get_default (games global_db) []"
  from merge_into_global_Inr[OF assms(1)] assms(2) obtain gs'
    where run: "foldM merge_game sgs (?gs, 0) = Inr (gs', merged_count)"
      and res: "global_db' = global_db\<lparr>games := Some gs'\<rparr>"
    by auto
  have "\<forall>(ks, game) \<in> set sgs.
          \<exists>i svs. py_int ks = Inr i \<and> map_of gs' (KInt i) \<noteq> None \<and>
            versions game = Some svs \<and>
            (\<forall>(vn, ver) \<in> set svs.
               \<exists>e h. ver_at gs' (KInt i) vn = Some e \<and> hashes e = Some h \<and>
                     dict_update h (get_default (hashes ver) []) = h)"
  proof (clarify)
    fix ks game assume mem: "(ks, game) \<in> set sgs"
    from outer_parses[OF run mem] obtain i svs
      where i: "py_int ks = Inr i" and svs: "versions game = Some svs" by auto
    have present: "map_of gs' (KInt i) \<noteq> None"
      by (rule outer_present[OF run mem i])
    have "\<exists>e h. ver_at gs' (KInt i) vn = Some e \<and> hashes e = Some h \<and>
                 dict_update h (get_default (hashes ver) []) = h"
      if v: "(vn, ver) \<in> set svs" for vn ver
    proof -
      from assms(5) mem svs v obtain sh where sh: "hashes ver = Some sh"
        and dist: "distinct (map fst sh)"
        by (fastforce simp: get_default_def)
      from outer_hit[OF run assms(3,4) mem i svs v]
        after_step_absorbs[OF sh dist, of "ver_at ?gs (KInt i) vn"]
      show ?thesis by auto
    qed
    with i svs present
    show "\<exists>i svs. py_int ks = Inr i \<and> map_of gs' (KInt i) \<noteq> None \<and> versions game = Some svs \<and>
            (\<forall>(vn, ver) \<in> set svs.
               \<exists>e h. ver_at gs' (KInt i) vn = Some e \<and> hashes e = Some h \<and>
                     dict_update h (get_default (hashes ver) []) = h)"
      by auto
  qed
  from outer_fixed[OF this, of 0] assms(2) res show ?thesis
    by (simp add: merge_into_global_def get_default_def)
qed

text \<open>The example submission merged a second time.\<close>

lemma merge_into_global_idempotent_example:
  "merge_into_global example_merged
     \<lparr>games = Some [(KStr ''7'', example_game)], top_fields = []\<rparr> = Inr (example_merged, 0)"
proof -
  have h1: "games \<lparr>games = Some [(KStr ''7'', example_game)], top_fields = []\<rparr> =
              Some [(KStr ''7'', example_game)]" by simp
  have h2: "distinct (map (\<lambda>(ks, game). py_int ks) [(KStr ''7'', example_game)])" by simp
  have h3: "\<forall>(ks, game) \<in> set [(KStr ''7'', example_game)].
              distinct (map fst (get_default (versions game) []))"
    by (simp add: get_default_def example_game_def)
  have h4: "\<forall>(ks, game) \<in> set [(KStr ''7'', example_game)].
              \<forall>(vn, ver) \<in> set (get_default (versions game) []).
                hashes ver \<noteq> None \<and> distinct (map fst (get_default (hashes ver) []))"
    by (simp add: get_default_def example_game_def example_submitted_def example_new_def)
  show ?thesis
    by (rule merge_into_global_idempotent[OF example_merge h1 h2 h3 h4])
qed

section \<open>Properties of \<open>verify_submission\<close>\<close>

lemma fold_verify_hash:
  "fold (verify_hash a) hs ok =
     (ok \<and> list_all (\<lambda>(inner_file, expected_hash).
                        map_of (archive_md5 a) inner_file = Some expected_hash) hs)"
proof (induction hs arbitrary: ok)
  case Nil
  then show ?case by simp
next
  case (Cons h hs)
  obtain f e where h: "h = (f, e)" by (cases h)
  show ?case
    by (auto simp: Cons.IH h md5_of_file_in_zip_def split: option.splits)
qed

lemma verify_version_eq: "verify_version env (vn, ver) ok = (ok \<and> version_ok env ver)"
  by (auto simp: version_ok_def fold_verify_hash split: option.splits)

lemma fold_verify_version:
  "fold (verify_version env) vs ok = (ok \<and> list_all (version_ok env) (map snd vs))"
proof (induction vs arbitrary: ok)
  case Nil
  then show ?case by simp
next
  case (Cons v vs)
  obtain vn ver where v: "v = (vn, ver)" by (cases v)
  show ?case by (auto simp: Cons.IH v verify_version_eq simp del: verify_version.simps)
qed

lemma foldM_verify_game:
  assumes "\<forall>(k, game) \<in> set gs. versions game \<noteq> None"
  shows "foldM (verify_game env) gs ok =
           Inr (ok \<and> list_all (version_ok env)
                       (concat (map (\<lambda>(k, game). map snd (get_default (versions game) [])) gs)))"
  using assms
proof (induction gs arbitrary: ok)
  case Nil
  then show ?case by simp
next
  case (Cons g gs)
  obtain k game where g: "g = (k, game)" by (cases g)
  from Cons.prems obtain vs where vs: "versions game = Some vs" by (auto simp: g)
  from Cons.prems have rest: "\<forall>(k, game) \<in> set gs. versions game \<noteq> None" by simp
  show ?case
    by (auto simp: g vs Cons.IH[OF rest] fold_verify_version get_default_def)
qed

lemma version_ok_iff:
  "version_ok env ver \<longleftrightarrow>
     archive_for env ver \<noteq> None \<and>
     (\<forall>(inner_file, expected_hash) \<in> set (get_default (hashes ver) []).
        \<not> is_mismatch env (ver, inner_file, expected_hash) \<and>
        \<not> is_missing_entry env (ver, inner_file, expected_hash))"
  by (auto simp: version_ok_def list_all_iff split: option.splits)

lemma all_versions_ok_iff:
  "list_all (version_ok env) (submitted_versions submission) \<longleftrightarrow>
     unlocated env submission = [] \<and> mismatches env submission = [] \<and>
     missing_entries env submission = []"
proof -
  have "list_all (version_ok env) vers \<longleftrightarrow>
     filter (\<lambda>ver. archive_for env ver = None) vers = [] \<and>
     filter (is_mismatch env)
       (concat (map (\<lambda>ver. map (\<lambda>(inner_file, expected_hash). (ver, inner_file, expected_hash))
                               (get_default (hashes ver) [])) vers)) = [] \<and>
     filter (is_missing_entry env)
       (concat (map (\<lambda>ver. map (\<lambda>(inner_file, expected_hash). (ver, inner_file, expected_hash))
                               (get_default (hashes ver) [])) vers)) = []" for vers
    by (induction vers) (auto simp: version_ok_iff filter_empty_conv)
  then show ?thesis
    by (simp add: unlocated_def mismatches_def missing_entries_def triples_def)
qed

text \<open>
  Claim C8, as the code has it. For a submission with a \<open>games\<close> dictionary in which
  every game has \<open>versions\<close>, \<open>verify_submission\<close> returns, and it returns success if
  and only if an archive was found for every version and there is no hash mismatch and no
  missing archive entry among the triples of the submission.
\<close>

theorem verify_submission_success_iff:
  assumes "games submission = Some gs"
    and "\<forall>(k, game) \<in> set gs. versions game \<noteq> None"
  shows "\<exists>ok. verify_submission env submission = Inr ok \<and>
           (ok \<longleftrightarrow> unlocated env submission = [] \<and> mismatches env submission = [] \<and>
                   missing_entries env submission = [])"
proof -
  have "submitted_versions submission =
          concat (map (\<lambda>(k, game). map snd (get_default (versions game) [])) gs)"
    by (simp add: submitted_versions_def assms(1) get_default_def)
  with foldM_verify_game[OF assms(2), of env True] assms(1)
  have "verify_submission env submission =
          Inr (list_all (version_ok env) (submitted_versions submission))"
    by (simp add: verify_submission_def)
  with all_versions_ok_iff[of env submission] show ?thesis by simp
qed

text \<open>
  Claim C8 as stated fails. The submission has one version without hashes, so it has no
  triple at all, hence no mismatch and no missing entry; no archive is found for the
  version, and \<open>verify_submission\<close> returns failure.
\<close>

theorem verify_submission_unlocated_archive_counterexample:
  "triples no_hash_submission = [] \<and>
   mismatches no_archives no_hash_submission = [] \<and>
   missing_entries no_archives no_hash_submission = [] \<and>
   verify_submission no_archives no_hash_submission = Inr False"
  by (simp add: triples_def submitted_versions_def mismatches_def missing_entries_def
        verify_submission_def no_hash_submission_def no_archives_def archive_for_def
        find_legal_archive_def get_default_def)

text \<open>
  With the archive, the submission with one matching hash is verified; without it, the
  same submission fails although no triple is a mismatch or a missing entry.
\<close>

theorem verify_submission_success_iff_witness:
  "verify_submission one_archive quake_submission = Inr True \<and>
   unlocated one_archive quake_submission = [] \<and>
   mismatches one_archive quake_submission = [] \<and>
   missing_entries one_archive quake_submission = [] \<and>
   verify_submission no_archives quake_submission = Inr False \<and>
   unlocated no_archives quake_submission \<noteq> []"
proof -
  have g: "games quake_submission = Some [(KStr ''7'',
       \<lparr>versions = Some [(''1.06'', \<lparr>executable = Some ''QUAKE.EXE'',
                                      hashes = Some [(''QUAKE.EXE'', ''bb'')],
                                      other_fields = []\<rparr>)],
        game_fields = []\<rparr>)]"
    by (simp add: quake_submission_def)
  have v: "\<forall>(k, game) \<in> set [(KStr ''7'',
       \<lparr>versions = Some [(''1.06'', \<lparr>executable = Some ''QUAKE.EXE'',
                                      hashes = Some [(''QUAKE.EXE'', ''bb'')],
                                      other_fields = []\<rparr>)],
        game_fields = []\<rparr>)]. versions game \<noteq> None"
    by simp
  have a: "archive_for one_archive \<lparr>executable = Some ''QUAKE.EXE'',
              hashes = Some [(''QUAKE.EXE'', ''bb'')], other_fields = []\<rparr> =
           Some \<lparr>archive_name = ''Quake.ZIP'',
                 archive_md5 = [(''QUAKE.EXE'', ''bb''), (''ID1/PAK0.PAK'', ''cc'')]\<rparr>"
    by (simp add: archive_for_def one_archive_def find_legal_archive_def get_default_def
          replace_backslash_def lower_def lower_char_def)
  have u1: "unlocated one_archive quake_submission = []"
    by (simp add: unlocated_def submitted_versions_def quake_submission_def get_default_def a)
  have m1: "mismatches one_archive quake_submission = []"
    by (simp add: mismatches_def triples_def submitted_versions_def quake_submission_def
          get_default_def a)
  have e1: "missing_entries one_archive quake_submission = []"
    by (simp add: missing_entries_def triples_def submitted_versions_def quake_submission_def
          get_default_def a)
  have u2: "unlocated no_archives quake_submission \<noteq> []"
    by (simp add: unlocated_def submitted_versions_def quake_submission_def get_default_def
          archive_for_def no_archives_def find_legal_archive_def)
  from verify_submission_success_iff[OF g v, of one_archive] u1 m1 e1
  have r1: "verify_submission one_archive quake_submission = Inr True" by auto
  from verify_submission_success_iff[OF g v, of no_archives] u2
  have r2: "verify_submission no_archives quake_submission = Inr False" by auto
  from r1 r2 u1 m1 e1 u2 show ?thesis by blast
qed

section \<open>Properties of the database import\<close>

lemma bindR_Inr_iff: "bindR m f = Inr y \<longleftrightarrow> (\<exists>x. m = Inr x \<and> f x = Inr y)"
  by (cases m) (simp_all add: bindR_def)

lemma bindR_Inr [simp]: "bindR (Inr x) f = f x"
  by (simp add: bindR_def)

lemma bindR_Inl [simp]: "bindR (Inl e) f = Inl e"
  by (simp add: bindR_def)

lemma index_of_Some_iff: "(\<exists>i. index_of xs x = Some i) \<longleftrightarrow> x \<in> set xs"
  by (induction xs) auto

lemma index_of_None_iff: "index_of xs x = None \<longleftrightarrow> x \<notin> set xs"
  by (induction xs) auto

lemma index_of_less: "index_of xs x = Some i \<Longrightarrow> i < length xs"
  by (induction xs arbitrary: i) (auto split: if_splits)

lemma py_nth_cell: "py_nth r i = Inr v \<Longrightarrow> cell r i = v"
  by (auto simp: py_nth_def cell_def split: if_splits)

lemma sql_in_py_nth: "sql_in (cell r i) keys \<Longrightarrow> py_nth r i = Inr (cell r i)"
  by (auto simp: sql_in_def cell_def py_nth_def split: if_splits)

lemma sql_in_mapped: "sql_in v (map fst m) \<Longrightarrow> \<exists>p. map_of m v = Some p"
  by (cases "map_of m v") (auto simp: sql_in_def map_of_eq_None_iff)

lemma mapM_Inr_map:
  assumes "mapM f xs = Inr ys" and "\<And>x y. x \<in> set xs \<Longrightarrow> f x = Inr y \<Longrightarrow> y = g x"
  shows "ys = map g xs"
  using assms
  by (induction xs arbitrary: ys) (auto split: sum.splits)

lemma mapM_ok:
  assumes "\<And>x. x \<in> set xs \<Longrightarrow> f x = Inr (g x)"
  shows "mapM f xs = Inr (map g xs)"
  using assms by (induction xs) auto

lemma row_data_of_Inr:
  assumes "row_data_of cols ins pc new row = Inr rd"
  shows "rd = map (\<lambda>col. if col = pc then SInt new else cell_of cols row col) ins"
  using assms unfolding row_data_of_def
  by (rule mapM_Inr_map)
     (auto simp: bindR_Inr_iff py_index_def cell_of_def dest: py_nth_cell split: option.splits if_splits)

lemma row_data_of_ok:
  assumes "set ins \<subseteq> set cols" and "length row = length cols"
  shows "row_data_of cols ins pc new row =
           Inr (map (\<lambda>col. if col = pc then SInt new else cell_of cols row col) ins)"
  unfolding row_data_of_def
proof (rule mapM_ok)
  fix col assume "col \<in> set ins"
  with assms(1) obtain i where i: "index_of cols col = Some i"
    using index_of_Some_iff[of cols col] by auto
  with index_of_less[OF i] assms(2)
  show "(if col = pc then Inr (SInt new) else bindR (py_index cols col) (py_nth row)) =
        Inr (if col = pc then SInt new else cell_of cols row col)"
    by (simp add: py_index_def py_nth_def cell_of_def cell_def)
qed

lemma map_of_zip_map_fun:
  "map_of (zip xs (map f xs)) c = (if c \<in> set xs then Some (f c) else None)"
  by (induction xs) auto

lemma insert_into_Inr:
  assumes "insert_into db name ins rd = Inr (db', new_id)" and "map_of db name = Some t"
  shows "new_id = seq t + 1 \<and> length rd = length ins \<and>
         db' = AList.update name
                 (t\<lparr>rows := rows t @
                      [map (\<lambda>c. case map_of (zip ins rd) c of
                                  Some v \<Rightarrow> v
                                | None \<Rightarrow> if c = ''id'' then SInt (seq t + 1) else SNull)
                           (columns t)],
                    seq := seq t + 1\<rparr>) db"
  using assms by (auto simp: insert_into_def Let_def split: if_splits)

lemma insert_into_ok:
  assumes "map_of db name = Some t" and "set ins \<subseteq> set (columns t)" and "length rd = length ins"
  shows "\<exists>db'. insert_into db name ins rd = Inr (db', seq t + 1)"
  using assms by (auto simp: insert_into_def Let_def)

lemma inserted_row_is_copied_row:
  assumes "index_of cols pc = Some idx" and "pc \<noteq> ''id''"
    and "map_of remap (cell row idx) = Some new"
    and "ins = filter (\<lambda>col. col \<noteq> ''id'') cols"
    and "rd = map (\<lambda>col. if col = pc then SInt new else cell_of cols row col) ins"
  shows "map (\<lambda>c. case map_of (zip ins rd) c of
                    Some v \<Rightarrow> v
                  | None \<Rightarrow> if c = ''id'' then SInt new_id else SNull) out_cols =
         copied_row out_cols cols pc remap new_id row"
  unfolding copied_row_def
proof (rule map_cong[OF refl])
  fix c
  show "(case map_of (zip ins rd) c of Some v \<Rightarrow> v
         | None \<Rightarrow> if c = ''id'' then SInt new_id else SNull) =
        (if c = ''id'' then SInt new_id
         else case index_of cols c of None \<Rightarrow> SNull
              | Some i \<Rightarrow> if c = pc
                  then (case map_of remap (cell row i) of None \<Rightarrow> SNull | Some p \<Rightarrow> SInt p)
                  else cell row i)"
  proof (cases "c \<in> set ins")
    case True
    then have "c \<noteq> ''id''" "c \<in> set cols" by (auto simp: assms(4))
    then obtain i where i: "index_of cols c = Some i"
      using index_of_Some_iff[of cols c] by auto
    from True have "map_of (zip ins rd) c = Some (if c = pc then SInt new else cell_of cols row c)"
      unfolding assms(5) by (simp add: map_of_zip_map_fun)
    with \<open>c \<noteq> ''id''\<close> i assms(1,3) show ?thesis
      by (auto simp: cell_of_def)
  next
    case False
    then have none: "map_of (zip ins rd) c = None"
      unfolding assms(5) by (simp add: map_of_zip_map_fun)
    from False have "c = ''id'' \<or> index_of cols c = None"
      by (auto simp: assms(4) index_of_None_iff)
    with none show ?thesis by auto
  qed
qed

lemma copy_table_row_Inr:
  assumes "copy_table_row name cols ins idx m (db, cnt) r = Inr (db', cnt')"
    and "map_of db name = Some t"
    and "index_of cols ''version_id'' = Some idx"
    and "ins = filter (\<lambda>col. col \<noteq> ''id'') cols"
    and "sql_in (cell r idx) (map fst m)"
  shows "cnt' = cnt + 1 \<and>
         db' = AList.update name
                 (t\<lparr>rows := rows t @ [copied_row (columns t) cols ''version_id'' m (seq t + 1) r],
                    seq := seq t + 1\<rparr>) db"
proof -
  from sql_in_mapped[OF assms(5)] obtain p where p: "map_of m (cell r idx) = Some p" by auto
  from assms(1) sql_in_py_nth[OF assms(5)] p obtain rd new_id
    where rd: "row_data_of cols ins ''version_id'' p r = Inr rd"
      and ins: "insert_into db name ins rd = Inr (db', new_id)"
      and cnt: "cnt' = cnt + 1"
    by (auto simp: bindR_Inr_iff)
  note rd' = row_data_of_Inr[OF rd]
  have "''version_id'' \<noteq> ''id''" by simp
  from inserted_row_is_copied_row[OF assms(3) this p assms(4) rd']
    insert_into_Inr[OF ins assms(2)] cnt
  show ?thesis by simp
qed

lemma copy_table_loop:
  assumes "foldM (copy_table_row name cols ins idx m) rs (db, cnt) = Inr (db', cnt')"
    and "map_of db name = Some t"
    and "index_of cols ''version_id'' = Some idx"
    and "ins = filter (\<lambda>col. col \<noteq> ''id'') cols"
    and "\<forall>r \<in> set rs. sql_in (cell r idx) (map fst m)"
  shows "cnt' = cnt + length rs \<and>
         map_of db' name =
           Some (t\<lparr>rows := rows t @ copied_rows (columns t) cols ''version_id'' m (seq t) rs,
                   seq := seq t + int (length rs)\<rparr>) \<and>
         (\<forall>n. n \<noteq> name \<longrightarrow> map_of db' n = map_of db n)"
  using assms(1,2,5)
proof (induction rs arbitrary: db cnt t)
  case Nil
  then show ?case by simp
next
  case (Cons r rs)
  from Cons.prems(1) obtain db1 cnt1
    where step: "copy_table_row name cols ins idx m (db, cnt) r = Inr (db1, cnt1)"
      and rest: "foldM (copy_table_row name cols ins idx m) rs (db1, cnt1) = Inr (db', cnt')"
    by (auto split: sum.splits)
  from Cons.prems(3) have here: "sql_in (cell r idx) (map fst m)"
    and later: "\<forall>r \<in> set rs. sql_in (cell r idx) (map fst m)" by auto
  let ?t1 = "t\<lparr>rows := rows t @ [copied_row (columns t) cols ''version_id'' m (seq t + 1) r],
                seq := seq t + 1\<rparr>"
  from copy_table_row_Inr[OF step Cons.prems(2) assms(3,4) here]
  have cnt1: "cnt1 = cnt + 1" and db1: "db1 = AList.update name ?t1 db" by auto
  have t1: "map_of db1 name = Some ?t1" by (simp add: db1 update_conv')
  from Cons.IH[OF rest t1 later] cnt1
  show ?case by (auto simp: db1 update_conv')
qed

lemma select_where_in_Inr:
  assumes "select_where_in db name col keys = Inr rs"
  shows "\<exists>t i. map_of db name = Some t \<and> index_of (columns t) col = Some i \<and>
           rs = filter (\<lambda>r. sql_in (cell r i) keys) (rows t)"
  using assms by (auto simp: select_where_in_def split: option.splits)

text \<open>
  Claim C6. When \<open>copy_table\<close> returns, the rows it has added to the target table are
  the copies of exactly the source rows whose \<open>version_id\<close> is a key of the remap, one
  copy for each in the order of the source, each with \<open>version_id\<close> rewritten to the
  mapped value and with a new id from the target; the number of inserted rows it reports
  is the number of these rows. A row whose \<open>version_id\<close> is not a key is not selected,
  not inserted and not counted. No other table of the target changes.
\<close>

theorem copy_table_copies_exactly_the_mapped_rows:
  assumes "copy_table table_name input_db output_db version_id_mapping =
             Inr (output_db', processed, inserted)"
    and "map_of input_db table_name = Some in_t"
    and "map_of output_db table_name = Some out_t"
  shows "inserted = length (selected_rows in_t ''version_id'' version_id_mapping) \<and>
         processed = inserted \<and>
         map_of output_db' table_name =
           Some (out_t\<lparr>rows := rows out_t @
                          copied_rows (columns out_t) (columns in_t) ''version_id''
                            version_id_mapping (seq out_t)
                            (selected_rows in_t ''version_id'' version_id_mapping),
                        seq := seq out_t + int inserted\<rparr>) \<and>
         (\<forall>n. n \<noteq> table_name \<longrightarrow> map_of output_db' n = map_of output_db n)"
proof -
  let ?cols = "columns in_t"
  let ?ins = "filter (\<lambda>col. col \<noteq> ''id'') ?cols"
  from assms(1,2) obtain rs idx
    where sel: "select_where_in input_db table_name ''version_id'' (map fst version_id_mapping) = Inr rs"
      and idx: "py_index ?cols ''version_id'' = Inr idx"
      and loop: "foldM (copy_table_row table_name ?cols ?ins idx version_id_mapping) rs (output_db, 0)
                   = Inr (output_db', inserted)"
      and proc: "processed = length rs"
    by (auto simp: copy_table_def get_table_columns_def Let_def bindR_Inr_iff)
  from idx have idx': "index_of ?cols ''version_id'' = Some idx"
    by (auto simp: py_index_def split: option.splits)
  from select_where_in_Inr[OF sel] assms(2) idx'
  have rs: "rs = selected_rows in_t ''version_id'' version_id_mapping"
    by (auto simp: selected_rows_def)
  then have all: "\<forall>r \<in> set rs. sql_in (cell r idx) (map fst version_id_mapping)"
    by (auto simp: selected_rows_def idx')
  from copy_table_loop[OF loop assms(3) idx' refl all] proc rs
  show ?thesis by simp
qed

lemma copy_table_loop_ok:
  assumes "map_of db name = Some t"
    and "index_of cols ''version_id'' = Some idx"
    and "ins = filter (\<lambda>col. col \<noteq> ''id'') cols"
    and "set ins \<subseteq> set (columns t)"
    and "\<forall>r \<in> set rs. sql_in (cell r idx) (map fst m) \<and> length r = length cols"
  shows "\<exists>db' cnt'. foldM (copy_table_row name cols ins idx m) rs (db, cnt) = Inr (db', cnt')"
  using assms(1,4,5)
proof (induction rs arbitrary: db cnt t)
  case Nil
  then show ?case by simp
next
  case (Cons r rs)
  from Cons.prems(3) have here: "sql_in (cell r idx) (map fst m)" and len: "length r = length cols"
    and later: "\<forall>r \<in> set rs. sql_in (cell r idx) (map fst m) \<and> length r = length cols"
    by auto
  from sql_in_mapped[OF here] obtain p where p: "map_of m (cell r idx) = Some p" by auto
  have sub: "set ins \<subseteq> set cols" by (auto simp: assms(3))
  note rd = row_data_of_ok[OF sub len, of "''version_id''" p]
  from insert_into_ok[OF Cons.prems(1,2), of "map (\<lambda>col. if col = ''version_id'' then SInt p
      else cell_of cols r col) ins"]
  obtain db1 where ins1: "insert_into db name ins (map (\<lambda>col. if col = ''version_id'' then SInt p
      else cell_of cols r col) ins) = Inr (db1, seq t + 1)"
    by auto
  from insert_into_Inr[OF ins1 Cons.prems(1)] obtain t1
    where t1: "map_of db1 name = Some t1" "columns t1 = columns t"
    by (auto simp: update_conv')
  have step: "copy_table_row name cols ins idx m (db, cnt) r = Inr (db1, cnt + 1)"
    by (simp add: sql_in_py_nth[OF here] p rd ins1)
  from Cons.prems(2) t1(2) have "set ins \<subseteq> set (columns t1)" by simp
  from Cons.IH[OF t1(1) this later, of "cnt + 1"]
  show ?case unfolding foldM.simps step by simp
qed

text \<open>
  \<open>copy_table\<close> returns when the source table has a \<open>version_id\<close> column and a cell
  for every column in every row, and the target table has the columns of the source.
\<close>

lemma copy_table_succeeds:
  assumes "map_of input_db table_name = Some in_t"
    and "''version_id'' \<in> set (columns in_t)"
    and "\<forall>r \<in> set (rows in_t). length r = length (columns in_t)"
    and "map_of output_db table_name = Some out_t"
    and "set (filter (\<lambda>col. col \<noteq> ''id'') (columns in_t)) \<subseteq> set (columns out_t)"
  shows "\<exists>output_db' n. copy_table table_name input_db output_db version_id_mapping =
           Inr (output_db', n, n)"
proof -
  let ?cols = "columns in_t"
  let ?ins = "filter (\<lambda>col. col \<noteq> ''id'') ?cols"
  let ?rs = "selected_rows in_t ''version_id'' version_id_mapping"
  from assms(2) obtain idx where idx: "index_of ?cols ''version_id'' = Some idx"
    using index_of_Some_iff[of ?cols "''version_id''"] by auto
  have sel: "select_where_in input_db table_name ''version_id'' (map fst version_id_mapping) = Inr ?rs"
    by (simp add: select_where_in_def assms(1) idx selected_rows_def)
  have all: "\<forall>r \<in> set ?rs. sql_in (cell r idx) (map fst version_id_mapping) \<and> length r = length ?cols"
    using assms(3) by (auto simp: selected_rows_def idx)
  from copy_table_loop_ok[OF assms(4) idx refl assms(5) all, where cnt = 0]
  obtain db' cnt' where loop:
    "foldM (copy_table_row table_name ?cols ?ins idx version_id_mapping) ?rs (output_db, 0) = Inr (db', cnt')"
    by auto
  have all': "\<forall>r \<in> set ?rs. sql_in (cell r idx) (map fst version_id_mapping)"
    using all by auto
  from copy_table_loop[OF loop assms(4) idx refl all'] have "cnt' = length ?rs" by simp
  with loop sel idx show ?thesis
    by (simp add: copy_table_def get_table_columns_def assms(1) Let_def py_index_def)
qed











text \<open>
  In the example, with the remap \<open>{2: 5}\<close>, the hash of source version 2 is copied with
  \<open>version_id\<close> 5 and the new id 8; the hash of source version 1 is not.
\<close>

theorem copy_table_copies_exactly_the_mapped_rows_witness:
  "map_of example_source ''hashes'' = Some source_hashes \<and>
   map_of (example_dest ''0.6.0'') ''hashes'' = Some dest_hashes \<and>
   selected_rows source_hashes ''version_id'' [(SInt 2, 5)] =
     [[SInt 2, SInt 2, SText ''QUAKE.EXE'', SText ''bb'']] \<and>
   (\<exists>db'. copy_table ''hashes'' example_source (example_dest ''0.6.0'') [(SInt 2, 5)] =
            Inr (db', 1, 1) \<and>
          map_of db' ''hashes'' =
            Some \<lparr>columns = hashes_columns,
                  rows = [[SInt 7, SInt 4, SText ''DOOM.EXE'', SText ''aa''],
                          [SInt 8, SInt 5, SText ''QUAKE.EXE'', SText ''bb'']],
                  seq = 8\<rparr>)"
proof -
  have in_t: "map_of example_source ''hashes'' = Some source_hashes"
    by (simp add: example_source_def)
  have out_t: "map_of (example_dest ''0.6.0'') ''hashes'' = Some dest_hashes"
    by (simp add: example_dest_def)
  have sel: "selected_rows source_hashes ''version_id'' [(SInt 2, 5)] =
     [[SInt 2, SInt 2, SText ''QUAKE.EXE'', SText ''bb'']]"
    by (simp add: selected_rows_def source_hashes_def hashes_columns_def sql_in_def cell_def)
  have "\<exists>db' n. copy_table ''hashes'' example_source (example_dest ''0.6.0'') [(SInt 2, 5)] =
           Inr (db', n, n)"
    by (rule copy_table_succeeds[OF in_t _ _ out_t])
       (auto simp: source_hashes_def dest_hashes_def hashes_columns_def)
  then obtain db' n
    where run: "copy_table ''hashes'' example_source (example_dest ''0.6.0'') [(SInt 2, 5)] =
           Inr (db', n, n)" by blast
  from copy_table_copies_exactly_the_mapped_rows[OF run in_t out_t]
  have n: "n = 1"
    and db': "map_of db' ''hashes'' =
           Some (dest_hashes\<lparr>rows := rows dest_hashes @
                          copied_rows (columns dest_hashes) (columns source_hashes) ''version_id''
                            [(SInt 2, 5)] (seq dest_hashes)
                            [[SInt 2, SInt 2, SText ''QUAKE.EXE'', SText ''bb'']],
                        seq := seq dest_hashes + int n\<rparr>)"
    by (simp_all add: sel)
  have "map_of db' ''hashes'' =
            Some \<lparr>columns = hashes_columns,
                  rows = [[SInt 7, SInt 4, SText ''DOOM.EXE'', SText ''aa''],
                          [SInt 8, SInt 5, SText ''QUAKE.EXE'', SText ''bb'']],
                  seq = 8\<rparr>"
    unfolding db' n
    by (simp add: dest_hashes_def source_hashes_def hashes_columns_def copied_row_def cell_def)
  with run n in_t out_t sel show ?thesis by blast
qed





text \<open>
  Claim C5. When the output database file exists and its \<open>db_version\<close> differs from the
  one of the input database, \<open>main\<close> ends with the version mismatch and the output
  database is what it was: nothing has been written.
\<close>

theorem version_mismatch_aborts_before_any_write:
  assumes "get_database_version input_db = Inr input_db_version"
    and "get_database_version output_db = Inr output_db_version"
    and "input_db_version \<noteq> output_db_version"
  shows "main input_db (Some output_db) =
           (VersionMismatch input_db_version output_db_version, Some output_db)"
  using assms by (simp add: main_def)

text \<open>
  The example of the specification: stores with \<open>db_version\<close> 0.6.0 and 0.5.0.
\<close>

theorem version_mismatch_aborts_before_any_write_witness:
  "get_database_version example_source = Inr (SText ''0.6.0'') \<and>
   get_database_version (example_dest ''0.5.0'') = Inr (SText ''0.5.0'') \<and>
   main example_source (Some (example_dest ''0.5.0'')) =
     (VersionMismatch (SText ''0.6.0'') (SText ''0.5.0''), Some (example_dest ''0.5.0''))"
proof -
  have a: "get_database_version example_source = Inr (SText ''0.6.0'')"
    by (simp add: get_database_version_def select_column_def example_source_def cell_def)
  have b: "get_database_version (example_dest ''0.5.0'') = Inr (SText ''0.5.0'')"
    by (simp add: get_database_version_def select_column_def example_dest_def cell_def)
  have c: "SText ''0.6.0'' \<noteq> SText ''0.5.0''" by simp
  from version_mismatch_aborts_before_any_write[OF a b c] a b show ?thesis by simp
qed





subsection \<open>No second game for an external identifier\<close>

lemma index_of_nth: "index_of xs x = Some i \<Longrightarrow> xs ! i = x"
  by (induction xs arbitrary: i) (auto split: if_splits)

lemma map_of_zip_index:
  "length row = length cols \<Longrightarrow>
   map_of (zip cols row) c = (case index_of cols c of None \<Rightarrow> None | Some j \<Rightarrow> Some (row ! j))"
proof (induction cols arbitrary: row)
  case Nil
  then show ?case by simp
next
  case (Cons a cols)
  then obtain v vs where row: "row = v # vs" by (cases row) auto
  with Cons.prems have "length vs = length cols" by simp
  from Cons.IH[OF this] show ?case
    by (auto simp: row split: option.splits)
qed

lemma map_of_zip_without:
  assumes "distinct cols" and "length row = length cols" and "index_of cols x = Some i"
  shows "map_of (zip (take i cols @ drop (Suc i) cols) (take i row @ drop (Suc i) row)) c =
           (if c = x then None else map_of (zip cols row) c)"
proof -
  from index_of_less[OF assms(3)] have i: "i < length cols" .
  with assms(2) have i': "i < length row" by simp
  from index_of_nth[OF assms(3)] have x: "cols ! i = x" .
  have cols: "cols = take i cols @ x # drop (Suc i) cols"
    using id_take_nth_drop[OF i] x by simp
  have row: "row = take i row @ (row ! i) # drop (Suc i) row"
    using id_take_nth_drop[OF i'] by simp
  have len: "length (take i cols) = length (take i row)" using assms(2) by simp
  have "zip cols row = zip (take i cols) (take i row) @ (x, row ! i) #
          zip (drop (Suc i) cols) (drop (Suc i) row)"
    by (subst cols, subst row) (simp add: zip_append[OF len] del: append_take_drop_id)
  then have full: "map_of (zip cols row) c =
      (map_of ((x, row ! i) # zip (drop (Suc i) cols) (drop (Suc i) row)) ++
       map_of (zip (take i cols) (take i row))) c"
    by (simp only: map_of_append)
  have part: "map_of (zip (take i cols @ drop (Suc i) cols) (take i row @ drop (Suc i) row)) c =
      (map_of (zip (drop (Suc i) cols) (drop (Suc i) row)) ++
       map_of (zip (take i cols) (take i row))) c"
    by (simp only: zip_append[OF len] map_of_append)
  from assms(1) have "distinct (take i cols @ x # drop (Suc i) cols)" using cols by simp
  then have nx: "x \<notin> set (take i cols)" "x \<notin> set (drop (Suc i) cols)" by auto
  have n1: "map_of (zip (take i cols) (take i row)) x = None"
    using nx(1) by (auto simp: map_of_eq_None_iff dest: set_zip_leftD)
  have n2: "map_of (zip (drop (Suc i) cols) (drop (Suc i) row)) x = None"
    using nx(2) by (auto simp: map_of_eq_None_iff dest: set_zip_leftD)
  show ?thesis
    unfolding part full using n1 n2 by (auto simp: map_add_def split: option.splits)
qed

lemma inserted_game_row_is_copied_game_row:
  assumes "distinct cols" and "length row = length cols" and "index_of cols ''id'' = Some i"
  shows "map (\<lambda>c. case map_of (zip (take i cols @ drop (Suc i) cols)
                                     (take i row @ drop (Suc i) row)) c of
                    Some v \<Rightarrow> v
                  | None \<Rightarrow> if c = ''id'' then SInt new_id else SNull) out_cols =
         copied_game_row out_cols cols new_id row"
  unfolding copied_game_row_def
proof (rule map_cong[OF refl])
  fix c
  show "(case map_of (zip (take i cols @ drop (Suc i) cols) (take i row @ drop (Suc i) row)) c of
           Some v \<Rightarrow> v | None \<Rightarrow> if c = ''id'' then SInt new_id else SNull) =
        (if c = ''id'' then SInt new_id else cell_of cols row c)"
  proof -
    note eq = map_of_zip_without[OF assms, of c]
    show ?thesis
    proof (cases "c = ''id''")
      case True
      then show ?thesis unfolding eq by simp
    next
      case False
      show ?thesis
      proof (cases "index_of cols c")
        case None
        with False show ?thesis
          unfolding eq by (simp add: map_of_zip_index[OF assms(2)] cell_of_def)
      next
        case (Some j)
        with index_of_less[OF Some] assms(2) False show ?thesis
          unfolding eq by (simp add: map_of_zip_index[OF assms(2)] cell_of_def cell_def)
      qed
    qed
  qed
qed

lemma copy_game_row_skip:
  assumes "index_of cols ''igdb_id'' = Some gi" and "length r = length cols"
    and "cell r gi \<in> seen"
  shows "copy_game_row cols ins (db, seen, gm, cnt) r = Inr (db, seen, gm, cnt)"
  using assms index_of_less[OF assms(1)]
  by (simp add: py_index_def py_nth_def cell_def)

lemma copy_game_row_insert:
  assumes "copy_game_row cols ins (db, seen, gm, cnt) r = Inr (db', seen', gm', cnt')"
    and "map_of db ''games'' = Some t"
    and "index_of cols ''igdb_id'' = Some gi" and "index_of cols ''id'' = Some ii"
    and "ins = take ii cols @ drop (Suc ii) cols"
    and "distinct cols" and "length r = length cols"
    and "cell r gi \<notin> seen"
  shows "cnt' = cnt + 1 \<and> seen' = insert (cell r gi) seen \<and>
         gm' = AList.update (cell_of cols r ''id'') (seq t + 1) gm \<and>
         db' = AList.update ''games''
                 (t\<lparr>rows := rows t @ [copied_game_row (columns t) cols (seq t + 1) r],
                    seq := seq t + 1\<rparr>) db"
proof -
  from index_of_less[OF assms(3)] assms(7) have g: "py_nth r gi = Inr (cell r gi)"
    by (simp add: py_nth_def cell_def)
  from index_of_less[OF assms(4)] assms(7) have i: "py_nth r ii = Inr (cell_of cols r ''id'')"
    by (simp add: py_nth_def cell_def cell_of_def assms(4))
  from assms(1,8) g i obtain new_id
    where ins: "insert_into db ''games'' ins (take ii r @ drop (Suc ii) r) = Inr (db', new_id)"
      and rest: "cnt' = cnt + 1" "seen' = insert (cell r gi) seen"
        "gm' = AList.update (cell_of cols r ''id'') new_id gm"
    by (auto simp: py_index_def assms(3,4) bindR_Inr_iff Let_def)
  from insert_into_Inr[OF ins assms(2)]
    inserted_game_row_is_copied_game_row[OF assms(6,7,4), of "seq t + 1" "columns t"] rest
  show ?thesis by (simp add: assms(5))
qed

lemma copy_db_content_loop:
  assumes "foldM (copy_game_row cols ins) rs (db, seen, gm, cnt) = Inr (db', seen', gm', cnt')"
    and "map_of db ''games'' = Some t"
    and "index_of cols ''igdb_id'' = Some gi" and "index_of cols ''id'' = Some ii"
    and "ins = take ii cols @ drop (Suc ii) cols"
    and "distinct cols" and "\<forall>r \<in> set rs. length r = length cols"
  shows "cnt' = cnt + length (new_games gi seen rs) \<and>
         gm' = new_remap cols (seq t) (new_games gi seen rs) gm \<and>
         map_of db' ''games'' =
           Some (t\<lparr>rows := rows t @ copied_game_rows (columns t) cols (seq t) (new_games gi seen rs),
                   seq := seq t + int (length (new_games gi seen rs))\<rparr>) \<and>
         (\<forall>n. n \<noteq> ''games'' \<longrightarrow> map_of db' n = map_of db n)"
  using assms(1,2,7)
proof (induction rs arbitrary: db seen gm cnt t)
  case Nil
  then show ?case by simp
next
  case (Cons r rs)
  from Cons.prems(1) obtain db1 seen1 gm1 cnt1
    where step: "copy_game_row cols ins (db, seen, gm, cnt) r = Inr (db1, seen1, gm1, cnt1)"
      and rest: "foldM (copy_game_row cols ins) rs (db1, seen1, gm1, cnt1) = Inr (db', seen', gm', cnt')"
    by (auto split: sum.splits)
  from Cons.prems(3) have len: "length r = length cols"
    and later: "\<forall>r \<in> set rs. length r = length cols" by auto
  show ?case
  proof (cases "cell r gi \<in> seen")
    case True
    from copy_game_row_skip[OF assms(3) len True, of ins db gm cnt] step
    have "db1 = db" "seen1 = seen" "gm1 = gm" "cnt1 = cnt" by auto
    with Cons.IH[OF rest[unfolded this] Cons.prems(2) later] True show ?thesis by simp
  next
    case False
    let ?t1 = "t\<lparr>rows := rows t @ [copied_game_row (columns t) cols (seq t + 1) r],
                  seq := seq t + 1\<rparr>"
    from copy_game_row_insert[OF step Cons.prems(2) assms(3,4,5,6) len False]
    have cnt1: "cnt1 = cnt + 1" and seen1: "seen1 = insert (cell r gi) seen"
      and gm1: "gm1 = AList.update (cell_of cols r ''id'') (seq t + 1) gm"
      and db1: "db1 = AList.update ''games'' ?t1 db" by auto
    have t1: "map_of db1 ''games'' = Some ?t1" by (simp add: db1 update_conv')
    from Cons.IH[OF rest t1 later] False cnt1 seen1 gm1
    show ?thesis by (auto simp: db1 update_conv')
  qed
qed

lemma new_games_fresh:
  "r \<in> set (new_games gi seen rs) \<Longrightarrow> cell r gi \<notin> seen"
  by (induction rs arbitrary: seen) (auto split: if_splits)

lemma new_games_distinct: "distinct (map (\<lambda>r. cell r gi) (new_games gi seen rs))"
  by (induction rs arbitrary: seen) (auto dest: new_games_fresh)

lemma new_games_subset: "set (new_games gi seen rs) \<subseteq> set rs"
  by (induction rs arbitrary: seen) auto

lemma copied_game_rows_igdb:
  assumes "index_of out_cols ''igdb_id'' = Some j" and "index_of cols ''igdb_id'' = Some gi"
  shows "map (\<lambda>r. cell r j) (copied_game_rows out_cols cols last_id rs) = map (\<lambda>r. cell r gi) rs"
proof (induction rs arbitrary: last_id)
  case Nil
  then show ?case by simp
next
  case (Cons r rs)
  from index_of_less[OF assms(1)] index_of_nth[OF assms(1)]
  have "cell (copied_game_row out_cols cols (last_id + 1) r) j = cell r gi"
    by (simp add: copied_game_row_def cell_def cell_of_def assms(2))
  with Cons show ?case by simp
qed

text \<open>
  The relational path creates no second game for an external identifier: the games that
  \<open>copy_db_content\<close> adds to the target are copies of source games, their external
  identifiers are pairwise different, and none of them is the external identifier of a
  game the target already had.
\<close>

lemma copy_db_content_inserts_only_new_games:
  assumes "copy_db_content input_db output_db = Inr (output_db', game_id_mapping, processed, inserted)"
    and "map_of input_db ''games'' = Some in_t" and "map_of output_db ''games'' = Some out_t"
    and "distinct (columns in_t)" and "\<forall>r \<in> set (rows in_t). length r = length (columns in_t)"
    and "index_of (columns in_t) ''igdb_id'' = Some gi"
    and "index_of (columns out_t) ''igdb_id'' = Some j"
  shows "\<exists>new. set new \<subseteq> set (rows in_t) \<and> inserted = length new \<and>
           map_of output_db' ''games'' =
             Some (out_t\<lparr>rows := rows out_t @
                            copied_game_rows (columns out_t) (columns in_t) (seq out_t) new,
                          seq := seq out_t + int inserted\<rparr>) \<and>
           game_id_mapping = new_remap (columns in_t) (seq out_t) new [] \<and>
           distinct (map (\<lambda>r. cell r j)
                         (copied_game_rows (columns out_t) (columns in_t) (seq out_t) new)) \<and>
           (\<forall>r \<in> set (copied_game_rows (columns out_t) (columns in_t) (seq out_t) new).
              cell r j \<notin> (\<lambda>r. cell r j) ` set (rows out_t))"
proof -
  let ?cols = "columns in_t"
  let ?seen = "set (map (\<lambda>r. cell r j) (rows out_t))"
  let ?new = "new_games gi ?seen (rows in_t)"
  from assms(1,2,3,7) obtain ii
    where ii: "index_of ?cols ''id'' = Some ii"
      and "\<exists>seen'. foldM (copy_game_row ?cols (take ii ?cols @ drop (Suc ii) ?cols)) (rows in_t)
               (output_db, ?seen, [], 0) = Inr (output_db', seen', game_id_mapping, inserted)"
    by (auto simp: copy_db_content_def get_table_columns_def select_all_def select_column_def
          py_index_def Let_def bindR_Inr_iff split: if_splits option.splits)
  then obtain seen' where loop:
    "foldM (copy_game_row ?cols (take ii ?cols @ drop (Suc ii) ?cols)) (rows in_t)
       (output_db, ?seen, [], 0) = Inr (output_db', seen', game_id_mapping, inserted)" by blast
  note * = copy_db_content_loop[OF loop assms(3,6) ii refl assms(4,5)]
  have igdb: "map (\<lambda>r. cell r j) (copied_game_rows (columns out_t) ?cols (seq out_t) ?new) =
              map (\<lambda>r. cell r gi) ?new"
    by (rule copied_game_rows_igdb[OF assms(7,6)])
  have d: "distinct (map (\<lambda>r. cell r j) (copied_game_rows (columns out_t) ?cols (seq out_t) ?new))"
    unfolding igdb by (rule new_games_distinct)
  have f: "\<forall>r \<in> set (copied_game_rows (columns out_t) ?cols (seq out_t) ?new).
              cell r j \<notin> (\<lambda>r. cell r j) ` set (rows out_t)"
  proof
    fix r assume "r \<in> set (copied_game_rows (columns out_t) ?cols (seq out_t) ?new)"
    then have "cell r j \<in> set (map (\<lambda>r. cell r j)
        (copied_game_rows (columns out_t) ?cols (seq out_t) ?new))" by simp
    then have "cell r j \<in> (\<lambda>r. cell r gi) ` set ?new" unfolding igdb by simp
    then obtain x where x: "x \<in> set ?new" "cell r j = cell x gi" by auto
    from new_games_fresh[OF x(1)] have "cell x gi \<notin> (\<lambda>r. cell r j) ` set (rows out_t)"
      by simp
    with x(2) show "cell r j \<notin> (\<lambda>r. cell r j) ` set (rows out_t)" by simp
  qed
  from * d f new_games_subset[of gi ?seen "rows in_t"] show ?thesis
    by (intro exI[of _ ?new]) simp
qed

text \<open>
  In the example, Doom (external identifier 100) is in the target and is skipped, Quake is
  inserted with the new id 6.
\<close>

lemma copy_db_content_example:
  "case copy_db_content example_source (example_dest ''0.6.0'') of
     Inl e \<Rightarrow> False
   | Inr (db', game_id_mapping, processed, inserted) \<Rightarrow>
       game_id_mapping = [(SInt 2, 6)] \<and> processed = 2 \<and> inserted = 1 \<and>
       map_option rows (map_of db' ''games'') =
         Some [[SInt 5, SText ''Doom'', SNull, SNull, SNull, SNull, SInt 100, SNull],
               [SInt 6, SText ''Quake'', SNull, SNull, SNull, SNull, SInt 200, SNull]]"
  by code_simp

end
